theory Spec2Isabelle
  imports Complex_Main "HOL-Library.Word"
begin

unbundle bit_operations_syntax

section \<open>The bit buffer codec of tier1/bitbuf.cpp\<close>

text \<open>
  The codec works on a caller-owned region of memory.  Memory is modelled as a list of
  bytes; on the little-endian layout the code normalises to, bit \<open>i\<close> of the stream is
  bit \<open>i mod 8\<close> of byte \<open>i div 8\<close>, which is also bit \<open>i mod 32\<close> of the 32-bit
  word \<open>i div 32\<close>.  Cursors and bit counts are the \<open>int\<close> fields of the source; they
  are modelled as \<open>nat\<close>, since every state a well-formed caller can reach keeps them
  non-negative, and no arithmetic on them wraps for buffers below \<open>2^31\<close> bits.
\<close>

type_synonym byte = "8 word"
type_synonym uint32 = "32 word"
type_synonym uint64 = "64 word"
type_synonym memory = "byte list"

subsection \<open>Bits of memory\<close>

definition get_bit :: "memory \<Rightarrow> nat \<Rightarrow> bool" where
  "get_bit m i = bit (m ! (i div 8)) (i mod 8)"

definition put_bit :: "memory \<Rightarrow> nat \<Rightarrow> bool \<Rightarrow> memory" where
  "put_bit m i b =
     m[i div 8 := (if b then set_bit (i mod 8) (m ! (i div 8))
                   else unset_bit (i mod 8) (m ! (i div 8)))]"

text \<open>\<open>store_bits m c n v\<close> puts the low \<open>n\<close> bits of \<open>v\<close> at stream positions
  \<open>c, ..., c + n - 1\<close>, least significant bit first; \<open>load_bits m c n\<close> collects the
  \<open>n\<close> bits at those positions into a word, the first bit least significant.\<close>

primrec store_bits :: "memory \<Rightarrow> nat \<Rightarrow> nat \<Rightarrow> uint32 \<Rightarrow> memory" where
  "store_bits m c 0 v = m"
| "store_bits m c (Suc n) v = put_bit (store_bits m c n v) (c + n) (bit v n)"

primrec load_bits :: "memory \<Rightarrow> nat \<Rightarrow> nat \<Rightarrow> uint32" where
  "load_bits m c 0 = 0"
| "load_bits m c (Suc n) =
     (load_bits m c n OR (if get_bit m (c + n) then push_bit n 1 else 0))"

subsection \<open>Writer and reader state\<close>

record bf_write =
  w_pData :: memory
  w_nDataBytes :: nat
  w_nDataBits :: nat
  w_iCurBit :: nat
  w_bOverflow :: bool

record bf_read =
  r_pData :: memory
  r_nDataBytes :: nat
  r_nDataBits :: nat
  r_iCurBit :: nat
  r_bOverflow :: bool

text \<open>\<open>bf_write::StartWriting\<close>: \<open>nBytes &= ~3\<close> rounds the byte count down to a
  multiple of four; \<open>nBits = -1\<close> means the whole buffer.\<close>

definition StartWriting :: "memory \<Rightarrow> nat \<Rightarrow> nat \<Rightarrow> int \<Rightarrow> bf_write" where
  "StartWriting pData nBytes iStartBit nBits =
     (let nBytes' = nBytes - nBytes mod 4 in
      \<lparr> w_pData = pData, w_nDataBytes = nBytes',
        w_nDataBits = (if nBits = - 1 then nBytes' * 8 else nat nBits),
        w_iCurBit = iStartBit, w_bOverflow = False \<rparr>)"



definition StartReading :: "memory \<Rightarrow> nat \<Rightarrow> nat \<Rightarrow> int \<Rightarrow> bf_read" where
  "StartReading pData nBytes iStartBit nBits =
     \<lparr> r_pData = pData, r_nDataBytes = nBytes,
       r_nDataBits = (if nBits = - 1 then nBytes * 8 else nat nBits),
       r_iCurBit = iStartBit, r_bOverflow = False \<rparr>"


subsection \<open>The fixed-width primitives\<close>

text \<open>Modelled from the spec: \<open>bf_write::WriteUBitLong\<close> is declared inline in
  bitbuf.h, which is not part of the sources.  The spec's WriteUnsignedBits writes the
  low \<open>numBits\<close> bits of the value least-significant-bit first at the cursor and
  advances the cursor by \<open>numBits\<close>; if \<open>curBit + numBits > capacityBits\<close> it sets
  overflow and writes nothing; in the Overflowed state it is a no-op.\<close>

definition WriteUBitLong :: "bf_write \<Rightarrow> uint32 \<Rightarrow> nat \<Rightarrow> bf_write" where
  "WriteUBitLong w curData numbits =
     (if w_bOverflow w then w
      else if w_iCurBit w + numbits > w_nDataBits w then w\<lparr> w_bOverflow := True \<rparr>
      else w\<lparr> w_pData := store_bits (w_pData w) (w_iCurBit w) numbits curData,
              w_iCurBit := w_iCurBit w + numbits \<rparr>)"

text \<open>Modelled from the spec: \<open>bf_write::WriteOneBit\<close> (bitbuf.h, not part of the
  sources) is the one-bit case of WriteUnsignedBits; any nonzero argument writes a 1.\<close>

definition WriteOneBit :: "bf_write \<Rightarrow> bool \<Rightarrow> bf_write" where
  "WriteOneBit w nValue = WriteUBitLong w (if nValue then 1 else 0) 1"

text \<open>Modelled from the spec: \<open>bf_read::ReadUBitLong\<close> is declared inline in bitbuf.h,
  which is not part of the sources.  The spec's ReadUnsignedBits returns the \<open>numBits\<close>
  bits at the cursor and advances the cursor; if \<open>cursor + numBits\<close> exceeds
  \<open>dataBits\<close> it sets overflow and returns 0; in the Overflowed state it is a no-op
  returning 0.\<close>

definition ReadUBitLong :: "bf_read \<Rightarrow> nat \<Rightarrow> uint32 \<times> bf_read" where
  "ReadUBitLong r numbits =
     (if r_bOverflow r then (0, r)
      else if r_iCurBit r + numbits > r_nDataBits r then (0, r\<lparr> r_bOverflow := True \<rparr>)
      else (load_bits (r_pData r) (r_iCurBit r) numbits,
            r\<lparr> r_iCurBit := r_iCurBit r + numbits \<rparr>))"

text \<open>Modelled from the spec: \<open>bf_read::ReadOneBit\<close> (bitbuf.h, not part of the
  sources) is the one-bit case of ReadUnsignedBits.\<close>

definition ReadOneBit :: "bf_read \<Rightarrow> uint32 \<times> bf_read" where
  "ReadOneBit r = ReadUBitLong r 1"

subsection \<open>Signed fixed-width values\<close>

text \<open>\<open>bf_write::WriteSBitLong\<close>.  \<open>nValue >> 31\<close> is the arithmetic shift of a signed
  \<open>int\<close>; the assertion \<open>nValue == data\<close> is compiled out of release builds and has
  no effect on the state.\<close>

definition WriteSBitLong :: "bf_write \<Rightarrow> uint32 \<Rightarrow> nat \<Rightarrow> bf_write" where
  "WriteSBitLong w data numbits =
     (let nValue = data;
          nPreserveBits = drop_bit (32 - numbits) (0x7FFFFFFF :: uint32);
          nSignExtension = signed_drop_bit 31 nValue AND NOT nPreserveBits;
          nValue = nValue AND nPreserveBits;
          nValue = nValue OR nSignExtension
      in WriteUBitLong w nValue numbits)"

text \<open>\<open>bf_read::ReadSBitLong\<close>; the result is the \<open>unsigned int r\<close> converted to
  \<open>int\<close>, read with \<open>sint\<close>.\<close>

definition ReadSBitLong :: "bf_read \<Rightarrow> nat \<Rightarrow> uint32 \<times> bf_read" where
  "ReadSBitLong r numbits =
     (let (v, r') = ReadUBitLong r numbits;
          s = push_bit (numbits - 1) (1 :: uint32);
          v = (if v \<ge> s then v - s - s else v)
      in (v, r'))"

subsection \<open>Variable-length integers\<close>

text \<open>Modelled from the spec: \<open>bitbuf::kMaxVarint32Bytes\<close> and \<open>bitbuf::kMaxVarintBytes\<close>
  are declared in bitbuf.h, which is not part of the sources; the spec gives the maximum
  number of groups as 5 for 32-bit and 10 for 64-bit values.\<close>

definition kMaxVarint32Bytes :: nat where "kMaxVarint32Bytes = 5"
definition kMaxVarintBytes :: nat where "kMaxVarintBytes = 10"

text \<open>Modelled from the spec: the zig-zag helpers of namespace \<open>bitbuf\<close> are declared in
  bitbuf.h, which is not part of the sources.  The spec gives
  \<open>encode(n) = (n << 1) ^ (n >> (bits-1))\<close> with an arithmetic right shift and
  \<open>decode(z) = (z >> 1) ^ -(z & 1)\<close> with a logical one.\<close>

definition ZigZagEncode32 :: "uint32 \<Rightarrow> uint32" where
  "ZigZagEncode32 n = push_bit 1 n XOR signed_drop_bit 31 n"

definition ZigZagDecode32 :: "uint32 \<Rightarrow> uint32" where
  "ZigZagDecode32 z = drop_bit 1 z XOR - (z AND 1)"

definition ZigZagEncode64 :: "uint64 \<Rightarrow> uint64" where
  "ZigZagEncode64 n = push_bit 1 n XOR signed_drop_bit 63 n"

definition ZigZagDecode64 :: "uint64 \<Rightarrow> uint64" where
  "ZigZagDecode64 z = drop_bit 1 z XOR - (z AND 1)"

text \<open>The per-byte fallback of \<open>bf_write::WriteVarInt32\<close>:
  \<open>while (data > 0x7F) { WriteUBitLong((data & 0x7F) | 0x80, 8); data >>= 7; }
  WriteUBitLong(data & 0x7F, 8);\<close>\<close>

function WriteVarInt32_bytes :: "bf_write \<Rightarrow> uint32 \<Rightarrow> bf_write" where
  "WriteVarInt32_bytes w data =
     (if data > 0x7F
      then WriteVarInt32_bytes (WriteUBitLong w ((data AND 0x7F) OR 0x80) 8) (drop_bit 7 data)
      else WriteUBitLong w (data AND 0x7F) 8)"
  by pat_completeness auto
termination
proof (relation "measure (\<lambda>(w, data). unat data)")
  show "wf (measure (\<lambda>(w, data). unat data))" by simp
next
  fix w :: bf_write and data :: uint32
  assume "0x7F < data"
  then have "unat data \<noteq> 0" by (auto simp add: unat_eq_0)
  then have "unat data div 2 ^ 7 < unat data" by simp
  then show "((WriteUBitLong w ((data AND 0x7F) OR 0x80) 8, drop_bit 7 data), (w, data))
      \<in> measure (\<lambda>(w, data). unat data)"
    by (simp add: drop_bit_eq_div unat_div)
qed

text \<open>\<open>bf_write::WriteVarInt32\<close>.  The fast path stores bytes through
  \<open>uint8* target = (uint8*)m_pData + (m_iCurBit >> 3)\<close> when the cursor is byte-aligned
  (\<open>(m_iCurBit & 7) == 0\<close>) and five bytes of capacity remain.\<close>

definition WriteVarInt32 :: "bf_write \<Rightarrow> uint32 \<Rightarrow> bf_write" where
  "WriteVarInt32 w data =
     (if w_iCurBit w mod 8 = 0 \<and> w_iCurBit w + kMaxVarint32Bytes * 8 \<le> w_nDataBits w then
        (let t = w_iCurBit w div 8;
             m = (w_pData w)[t := ucast (data OR 0x80)] in
         if data \<ge> 2 ^ 7 then
           (let m = m[t + 1 := ucast (drop_bit 7 data OR 0x80)] in
            if data \<ge> 2 ^ 14 then
              (let m = m[t + 2 := ucast (drop_bit 14 data OR 0x80)] in
               if data \<ge> 2 ^ 21 then
                 (let m = m[t + 3 := ucast (drop_bit 21 data OR 0x80)] in
                  if data \<ge> 2 ^ 28 then
                    w\<lparr> w_pData := m[t + 4 := ucast (drop_bit 28 data)],
                       w_iCurBit := w_iCurBit w + 5 * 8 \<rparr>
                  else
                    w\<lparr> w_pData := m[t + 3 := m ! (t + 3) AND 0x7F],
                       w_iCurBit := w_iCurBit w + 4 * 8 \<rparr>)
               else
                 w\<lparr> w_pData := m[t + 2 := m ! (t + 2) AND 0x7F],
                    w_iCurBit := w_iCurBit w + 3 * 8 \<rparr>)
            else
              w\<lparr> w_pData := m[t + 1 := m ! (t + 1) AND 0x7F],
                 w_iCurBit := w_iCurBit w + 2 * 8 \<rparr>)
         else
           w\<lparr> w_pData := m[t := m ! t AND 0x7F], w_iCurBit := w_iCurBit w + 1 * 8 \<rparr>)
      else WriteVarInt32_bytes w data)"

text \<open>The per-byte fallback of \<open>bf_write::WriteVarInt64\<close>; the argument of
  \<open>WriteUBitLong\<close> is converted from \<open>uint64\<close> to \<open>unsigned int\<close>.\<close>

function WriteVarInt64_bytes :: "bf_write \<Rightarrow> uint64 \<Rightarrow> bf_write" where
  "WriteVarInt64_bytes w data =
     (if data > 0x7F
      then WriteVarInt64_bytes (WriteUBitLong w (ucast ((data AND 0x7F) OR 0x80)) 8) (drop_bit 7 data)
      else WriteUBitLong w (ucast (data AND 0x7F)) 8)"
  by pat_completeness auto
termination
proof (relation "measure (\<lambda>(w, data). unat data)")
  show "wf (measure (\<lambda>(w, data). unat data))" by simp
next
  fix w :: bf_write and data :: uint64
  assume "0x7F < data"
  then have "unat data \<noteq> 0" by (auto simp add: unat_eq_0)
  then have "unat data div 2 ^ 7 < unat data" by simp
  then show "((WriteUBitLong w (ucast ((data AND 0x7F) OR 0x80)) 8, drop_bit 7 data), (w, data))
      \<in> measure (\<lambda>(w, data). unat data)"
    by (simp add: drop_bit_eq_div unat_div)
qed

text \<open>The size computed by the fast path of \<open>bf_write::WriteVarInt64\<close> from the three
  parts of the value.\<close>

definition WriteVarInt64_size :: "uint32 \<Rightarrow> uint32 \<Rightarrow> uint32 \<Rightarrow> nat" where
  "WriteVarInt64_size part0 part1 part2 =
     (if part2 = 0 then
        (if part1 = 0 then (if part0 < 2 ^ 7 then 1 else 2)
         else (if part1 < 2 ^ 7 then 5
               else (if part1 < 2 ^ 14 then 6 else (if part1 < 2 ^ 21 then 7 else 8))))
      else (if part2 < 2 ^ 7 then 9 else 10))"

text \<open>\<open>bf_write::WriteVarInt64\<close>.  The \<open>switch (size)\<close> has no \<open>break\<close>: control
  enters at \<open>case size\<close> and falls through to \<open>case 1\<close>, so byte \<open>k\<close> is stored exactly
  when \<open>k < size\<close>, from the highest index down; then \<open>target[size - 1] &= 0x7F\<close>.\<close>

definition WriteVarInt64 :: "bf_write \<Rightarrow> uint64 \<Rightarrow> bf_write" where
  "WriteVarInt64 w data =
     (if w_iCurBit w mod 8 = 0 \<and> w_iCurBit w + kMaxVarintBytes * 8 \<le> w_nDataBits w then
        (let t = w_iCurBit w div 8;
             part0 = (ucast data :: uint32);
             part1 = (ucast (drop_bit 28 data) :: uint32);
             part2 = (ucast (drop_bit 56 data) :: uint32);
             sz = WriteVarInt64_size part0 part1 part2;
             m = w_pData w;
             m = (if 10 \<le> sz then m[t + 9 := ucast (drop_bit 7 part2 OR 0x80)] else m);
             m = (if 9 \<le> sz then m[t + 8 := ucast (part2 OR 0x80)] else m);
             m = (if 8 \<le> sz then m[t + 7 := ucast (drop_bit 21 part1 OR 0x80)] else m);
             m = (if 7 \<le> sz then m[t + 6 := ucast (drop_bit 14 part1 OR 0x80)] else m);
             m = (if 6 \<le> sz then m[t + 5 := ucast (drop_bit 7 part1 OR 0x80)] else m);
             m = (if 5 \<le> sz then m[t + 4 := ucast (part1 OR 0x80)] else m);
             m = (if 4 \<le> sz then m[t + 3 := ucast (drop_bit 21 part0 OR 0x80)] else m);
             m = (if 3 \<le> sz then m[t + 2 := ucast (drop_bit 14 part0 OR 0x80)] else m);
             m = (if 2 \<le> sz then m[t + 1 := ucast (drop_bit 7 part0 OR 0x80)] else m);
             m = (if 1 \<le> sz then m[t := ucast (part0 OR 0x80)] else m);
             m = m[t + (sz - 1) := m ! (t + (sz - 1)) AND 0x7F]
         in w\<lparr> w_pData := m, w_iCurBit := w_iCurBit w + sz * 8 \<rparr>)
      else WriteVarInt64_bytes w data)"

definition WriteSignedVarInt32 :: "bf_write \<Rightarrow> uint32 \<Rightarrow> bf_write" where
  "WriteSignedVarInt32 w data = WriteVarInt32 w (ZigZagEncode32 data)"

definition WriteSignedVarInt64 :: "bf_write \<Rightarrow> uint64 \<Rightarrow> bf_write" where
  "WriteSignedVarInt64 w data = WriteVarInt64 w (ZigZagEncode64 data)"

text \<open>\<open>bf_write::ByteSizeVarInt32\<close> and \<open>ByteSizeVarInt64\<close>: the loop
  \<open>while (data > 0x7F) { size++; data >>= 7; }\<close> started with \<open>size = 1\<close> (\<open>sz\<close> below).\<close>

function ByteSizeVarInt32_loop :: "nat \<Rightarrow> uint32 \<Rightarrow> nat" where
  "ByteSizeVarInt32_loop sz data =
     (if data > 0x7F then ByteSizeVarInt32_loop (sz + 1) (drop_bit 7 data) else sz)"
  by pat_completeness auto
termination
proof (relation "measure (\<lambda>(sz, data). unat data)")
  show "wf (measure (\<lambda>(sz, data). unat data))" by simp
next
  fix sz :: nat and data :: uint32
  assume "0x7F < data"
  then have "unat data \<noteq> 0" by (auto simp add: unat_eq_0)
  then have "unat data div 2 ^ 7 < unat data" by simp
  then show "((sz + 1, drop_bit 7 data), (sz, data)) \<in> measure (\<lambda>(sz, data). unat data)"
    by (simp add: drop_bit_eq_div unat_div)
qed

definition ByteSizeVarInt32 :: "uint32 \<Rightarrow> nat" where
  "ByteSizeVarInt32 data = ByteSizeVarInt32_loop 1 data"

function ByteSizeVarInt64_loop :: "nat \<Rightarrow> uint64 \<Rightarrow> nat" where
  "ByteSizeVarInt64_loop sz data =
     (if data > 0x7F then ByteSizeVarInt64_loop (sz + 1) (drop_bit 7 data) else sz)"
  by pat_completeness auto
termination
proof (relation "measure (\<lambda>(sz, data). unat data)")
  show "wf (measure (\<lambda>(sz, data). unat data))" by simp
next
  fix sz :: nat and data :: uint64
  assume "0x7F < data"
  then have "unat data \<noteq> 0" by (auto simp add: unat_eq_0)
  then have "unat data div 2 ^ 7 < unat data" by simp
  then show "((sz + 1, drop_bit 7 data), (sz, data)) \<in> measure (\<lambda>(sz, data). unat data)"
    by (simp add: drop_bit_eq_div unat_div)
qed

definition ByteSizeVarInt64 :: "uint64 \<Rightarrow> nat" where
  "ByteSizeVarInt64 data = ByteSizeVarInt64_loop 1 data"

text \<open>\<open>bf_read::ReadVarInt32\<close>: the \<open>do ... while (b & 0x80)\<close> loop with its variables
  \<open>result\<close> and \<open>count\<close>.  The loop is re-entered only after a byte with the
  continuation bit was read, which moved the cursor, so the bits left before
  \<open>m_nDataBits\<close> bound the iterations from any \<open>count\<close>.\<close>

function ReadVarInt32_loop :: "bf_read \<Rightarrow> uint32 \<Rightarrow> nat \<Rightarrow> uint32 \<times> bf_read" where
  "ReadVarInt32_loop r result count =
     (if count = kMaxVarint32Bytes then (result, r)
      else
        (let (b, r') = ReadUBitLong r 8;
             result' = result OR push_bit (7 * count) (b AND 0x7F);
             count' = count + 1
         in if b AND 0x80 \<noteq> 0 then ReadVarInt32_loop r' result' count' else (result', r')))"
  by pat_completeness auto
termination
proof (relation "measure (\<lambda>(r, result, count).
          if r_bOverflow r then 0 else r_nDataBits r + 8 - r_iCurBit r)")
  show "wf (measure (\<lambda>(r, result, count).
          if r_bOverflow r then 0 else r_nDataBits r + 8 - r_iCurBit r))" by simp
next
  fix r :: bf_read and result :: uint32 and count :: nat and x :: "uint32 \<times> bf_read"
    and b :: uint32 and r' :: bf_read and result' :: uint32 and count' :: nat
  assume "x = ReadUBitLong r 8" and "(b, r') = x" and "b AND 0x80 \<noteq> 0"
  then show "((r', result', count'), (r, result, count)) \<in> measure (\<lambda>(r, result, count).
          if r_bOverflow r then 0 else r_nDataBits r + 8 - r_iCurBit r)"
    by (auto simp add: ReadUBitLong_def split: if_splits)
qed

definition ReadVarInt32 :: "bf_read \<Rightarrow> uint32 \<times> bf_read" where
  "ReadVarInt32 r = ReadVarInt32_loop r 0 0"

text \<open>\<open>bf_read::ReadVarInt64\<close>; \<open>b\<close> is the byte read, widened to \<open>uint64\<close>.\<close>

function ReadVarInt64_loop :: "bf_read \<Rightarrow> uint64 \<Rightarrow> nat \<Rightarrow> uint64 \<times> bf_read" where
  "ReadVarInt64_loop r result count =
     (if count = kMaxVarintBytes then (result, r)
      else
        (let (b32, r') = ReadUBitLong r 8;
             b = (ucast b32 :: uint64);
             result' = result OR push_bit (7 * count) (b AND 0x7F);
             count' = count + 1
         in if b AND 0x80 \<noteq> 0 then ReadVarInt64_loop r' result' count' else (result', r')))"
  by pat_completeness auto
termination
proof (relation "measure (\<lambda>(r, result, count).
          if r_bOverflow r then 0 else r_nDataBits r + 8 - r_iCurBit r)")
  show "wf (measure (\<lambda>(r, result, count).
          if r_bOverflow r then 0 else r_nDataBits r + 8 - r_iCurBit r))" by simp
next
  fix r :: bf_read and result :: uint64 and count :: nat and x :: "uint32 \<times> bf_read"
    and b32 :: uint32 and r' :: bf_read and b :: uint64 and result' :: uint64 and count' :: nat
  assume "x = ReadUBitLong r 8" and "(b32, r') = x" and "b = ucast b32" and "b AND 0x80 \<noteq> 0"
  then show "((r', result', count'), (r, result, count)) \<in> measure (\<lambda>(r, result, count).
          if r_bOverflow r then 0 else r_nDataBits r + 8 - r_iCurBit r)"
    by (auto simp add: ReadUBitLong_def split: if_splits)
qed

definition ReadVarInt64 :: "bf_read \<Rightarrow> uint64 \<times> bf_read" where
  "ReadVarInt64 r = ReadVarInt64_loop r 0 0"

declare ReadVarInt32_loop.simps [simp del] ReadVarInt64_loop.simps [simp del]
  WriteVarInt32_bytes.simps [simp del] WriteVarInt64_bytes.simps [simp del]
  ByteSizeVarInt32_loop.simps [simp del] ByteSizeVarInt64_loop.simps [simp del]

text \<open>\<open>bf_read::ReadSignedVarInt32\<close>.\<close>

definition ReadSignedVarInt32 :: "bf_read \<Rightarrow> uint32 \<times> bf_read" where
  "ReadSignedVarInt32 r = (let (value, r') = ReadVarInt32 r in (ZigZagDecode32 value, r'))"

text \<open>\<open>bf_read::ReadSignedVarInt64\<close>.  The source declares
  \<open>uint32 value = ReadVarInt64();\<close>: the 64-bit result is converted to 32 bits, and
  widened again with zeros when it is passed to \<open>ZigZagDecode64\<close>.\<close>

definition ReadSignedVarInt64 :: "bf_read \<Rightarrow> uint64 \<times> bf_read" where
  "ReadSignedVarInt64 r =
     (let (v64, r') = ReadVarInt64 r;
          value = (ucast v64 :: uint32)
      in (ZigZagDecode64 (ucast value), r'))"

subsection \<open>Bulk writes\<close>

text \<open>Modelled from the spec: \<open>GetBitForBitnum\<close>, behind \<open>BitForBitnum\<close>, is not part of
  the sources.  The spec describes the mask tables as precomputed shift/mask arithmetic;
  the bit for a bit number is \<open>1 << bitnum\<close>.  The tables are only built for bit numbers
  below 32.\<close>

definition BitForBitnum :: "nat \<Rightarrow> uint32" where
  "BitForBitnum bitnum = push_bit bitnum 1"

text \<open>The table entry \<open>g_BitWriteMasks[startBit][bitsLeft]\<close> as \<open>CBitWriteMasksInit\<close>
  computes it.\<close>

definition g_BitWriteMasks :: "nat \<Rightarrow> nat \<Rightarrow> uint32" where
  "g_BitWriteMasks startBit bitsLeft =
     (let endBit = startBit + bitsLeft;
          m = BitForBitnum startBit - 1
      in if endBit < 32 then m OR NOT (BitForBitnum endBit - 1) else m)"

text \<open>A 32-bit little-endian load and store at a byte offset: \<open>*(uint32*)p\<close> on the
  little-endian layout.\<close>

definition load_dword :: "memory \<Rightarrow> nat \<Rightarrow> uint32" where
  "load_dword m a =
     (ucast (m ! a) OR push_bit 8 (ucast (m ! (a + 1))) OR
      push_bit 16 (ucast (m ! (a + 2))) OR push_bit 24 (ucast (m ! (a + 3))))"

definition store_dword :: "memory \<Rightarrow> nat \<Rightarrow> uint32 \<Rightarrow> memory" where
  "store_dword m a v =
     m[a := ucast v, a + 1 := ucast (drop_bit 8 v),
       a + 2 := ucast (drop_bit 16 v), a + 3 := ucast (drop_bit 24 v)]"

text \<open>\<open>Q_memcpy(dst + d, src + s, n)\<close>: the C library's byte copy.\<close>

primrec Q_memcpy :: "memory \<Rightarrow> nat \<Rightarrow> byte list \<Rightarrow> nat \<Rightarrow> nat \<Rightarrow> memory" where
  "Q_memcpy dst d src s 0 = dst"
| "Q_memcpy dst d src s (Suc n) = (Q_memcpy dst d src s n)[d + n := src ! (s + n)]"

text \<open>The loops of \<open>bf_write::WriteBits\<close>.  The source bytes are \<open>pIn\<close>, \<open>addr\<close> is the
  address of their first byte (only its alignment matters), and \<open>pOut\<close> is the index of
  the next byte to take.  First
  \<open>while ((((uintptr_t)pOut) & 3) != 0 && nBitsLeft >= 8)\<close>:\<close>

function WriteBits_align ::
  "nat \<Rightarrow> byte list \<Rightarrow> bf_write \<Rightarrow> nat \<Rightarrow> nat \<Rightarrow> bf_write \<times> nat \<times> nat" where
  "WriteBits_align addr pIn w pOut nBitsLeft =
     (if (addr + pOut) mod 4 \<noteq> 0 \<and> 8 \<le> nBitsLeft
      then WriteBits_align addr pIn (WriteUBitLong w (ucast (pIn ! pOut)) 8) (pOut + 1) (nBitsLeft - 8)
      else (w, pOut, nBitsLeft))"
  by pat_completeness auto
termination
  by (relation "measure (\<lambda>(addr, pIn, w, pOut, nBitsLeft). nBitsLeft)") auto

text \<open>The word loop \<open>while (nBitsLeft >= 32)\<close> with \<open>iBitsRight = m_iCurBit & 31\<close> fixed
  before it and \<open>pData\<close> the index of the current 32-bit word of the buffer.\<close>

function WriteBits_words ::
  "byte list \<Rightarrow> nat \<Rightarrow> bf_write \<Rightarrow> nat \<Rightarrow> nat \<Rightarrow> nat \<Rightarrow> bf_write \<times> nat \<times> nat" where
  "WriteBits_words pIn iBitsRight w pData pOut nBitsLeft =
     (if 32 \<le> nBitsLeft then
        (let iBitsLeft = 32 - iBitsRight;
             bitMaskLeft = g_BitWriteMasks iBitsRight 32;
             bitMaskRight = g_BitWriteMasks 0 iBitsRight;
             curData = load_dword pIn pOut;
             m = w_pData w;
             m = store_dword m (4 * pData) (load_dword m (4 * pData) AND bitMaskLeft);
             m = store_dword m (4 * pData) (load_dword m (4 * pData) OR push_bit iBitsRight curData);
             m = (if iBitsLeft < 32 then
                    (let curData = drop_bit iBitsLeft curData;
                         m = store_dword m (4 * (pData + 1)) (load_dword m (4 * (pData + 1)) AND bitMaskRight)
                     in store_dword m (4 * (pData + 1)) (load_dword m (4 * (pData + 1)) OR curData))
                  else m)
         in WriteBits_words pIn iBitsRight
              (w\<lparr> w_pData := m, w_iCurBit := w_iCurBit w + 32 \<rparr>) (pData + 1) (pOut + 4) (nBitsLeft - 32))
      else (w, pOut, nBitsLeft))"
  by pat_completeness auto
termination
  by (relation "measure (\<lambda>(pIn, iBitsRight, w, pData, pOut, nBitsLeft). nBitsLeft)") auto

text \<open>The closing loop \<open>while (nBitsLeft >= 8)\<close>.\<close>

function WriteBits_bytes :: "byte list \<Rightarrow> bf_write \<Rightarrow> nat \<Rightarrow> nat \<Rightarrow> bf_write \<times> nat \<times> nat" where
  "WriteBits_bytes pIn w pOut nBitsLeft =
     (if 8 \<le> nBitsLeft
      then WriteBits_bytes pIn (WriteUBitLong w (ucast (pIn ! pOut)) 8) (pOut + 1) (nBitsLeft - 8)
      else (w, pOut, nBitsLeft))"
  by pat_completeness auto
termination
  by (relation "measure (\<lambda>(pIn, w, pOut, nBitsLeft). nBitsLeft)") auto

declare WriteBits_align.simps [simp del] WriteBits_words.simps [simp del]
  WriteBits_bytes.simps [simp del]

text \<open>\<open>bf_write::WriteBits\<close>.  \<open>isPC\<close> is the platform constant \<open>IsPC()\<close>, which is not
  defined in the sources and is taken as a parameter.  \<open>SetOverflowFlag\<close> sets
  \<open>m_bOverflow\<close> (as the reader's version in bitbuf.cpp does), and the error handler has
  no effect on the writer.  The result is the returned \<open>bool\<close> and the writer.\<close>

definition WriteBits :: "bool \<Rightarrow> nat \<Rightarrow> byte list \<Rightarrow> bf_write \<Rightarrow> nat \<Rightarrow> bool \<times> bf_write" where
  "WriteBits isPC addr pIn w nBits =
     (if w_iCurBit w + nBits > w_nDataBits w then (False, w\<lparr> w_bOverflow := True \<rparr>)
      else
        (let (w, pOut, nBitsLeft) = WriteBits_align addr pIn w 0 nBits;
             (w, pOut, nBitsLeft) =
               (if isPC \<and> 32 \<le> nBitsLeft \<and> w_iCurBit w mod 8 = 0 then
                  (let numbytes = nBitsLeft div 8;
                       numbits = numbytes * 8
                   in (w\<lparr> w_pData := Q_memcpy (w_pData w) (w_iCurBit w div 8) pIn pOut numbytes,
                          w_iCurBit := w_iCurBit w + numbits \<rparr>,
                       pOut + numbytes, nBitsLeft - numbits))
                else (w, pOut, nBitsLeft));
             (w, pOut, nBitsLeft) =
               (if isPC \<and> 32 \<le> nBitsLeft
                then WriteBits_words pIn (w_iCurBit w mod 32) w (w_iCurBit w div 32) pOut nBitsLeft
                else (w, pOut, nBitsLeft));
             (w, pOut, nBitsLeft) = WriteBits_bytes pIn w pOut nBitsLeft;
             w = (if nBitsLeft \<noteq> 0 then WriteUBitLong w (ucast (pIn ! pOut)) nBitsLeft else w)
         in (\<not> w_bOverflow w, w)))"

text \<open>The invariant of the loops of \<open>WriteBits\<close> on a writer that has room: no overflow,
  the capacity is unchanged, and the cursor plus the bits still to write stays the same.\<close>

definition ready_for :: "bf_write \<Rightarrow> nat \<Rightarrow> bf_write \<times> nat \<times> nat \<Rightarrow> bool" where
  "ready_for w n res = (case res of (w', pOut', n') \<Rightarrow>
     \<not> w_bOverflow w' \<and> w_iCurBit w' + n' = w_iCurBit w + n \<and> w_nDataBits w' = w_nDataBits w)"

subsection \<open>Peeking and strings\<close>

text \<open>\<open>bf_read::PeekUBitLong\<close>: the loop \<open>for (i = 0; i < numbits; i++) r |= ReadOneBit() << i\<close>
  runs on the reader itself, between \<open>savebf = *this\<close> and \<open>*this = savebf\<close>.\<close>

function PeekUBitLong_loop :: "bf_read \<Rightarrow> uint32 \<Rightarrow> nat \<Rightarrow> nat \<Rightarrow> uint32 \<times> bf_read" where
  "PeekUBitLong_loop r acc i numbits =
     (if i < numbits
      then (let (b, r') = ReadOneBit r in PeekUBitLong_loop r' (acc OR push_bit i b) (i + 1) numbits)
      else (acc, r))"
  by pat_completeness auto
termination
  by (relation "measure (\<lambda>(r, acc, i, numbits). numbits - i)") auto

declare PeekUBitLong_loop.simps [simp del]

definition PeekUBitLong :: "bf_read \<Rightarrow> nat \<Rightarrow> uint32 \<times> bf_read" where
  "PeekUBitLong r numbits =
     (let savebf = r;
          (v, r') = PeekUBitLong_loop r 0 0 numbits
      in (v, savebf))"

text \<open>Modelled from the spec: \<open>bf_read::ReadChar\<close> is declared inline in bitbuf.h, which
  is not part of the sources.  It is the reader's inverse of \<open>WriteChar\<close>, which writes
  eight bits; \<open>char val = ReadChar()\<close> keeps those eight bits.\<close>

definition ReadChar :: "bf_read \<Rightarrow> byte \<times> bf_read" where
  "ReadChar r = (let (v, r') = ReadUBitLong r 8 in (ucast v, r'))"

text \<open>\<open>bf_read::ReadString\<close>.  \<open>pStr\<close> is the caller's destination buffer; the loop
  carries \<open>iChar\<close> and \<open>bTooSmall\<close>.  The loop is re-entered only after a nonzero
  character was read, which moved the cursor.\<close>

function ReadString_loop ::
  "bf_read \<Rightarrow> byte list \<Rightarrow> nat \<Rightarrow> bool \<Rightarrow> nat \<Rightarrow> bool \<Rightarrow> bf_read \<times> byte list \<times> nat \<times> bool" where
  "ReadString_loop r pStr maxLen bLine iChar bTooSmall =
     (let (val, r') = ReadChar r in
      if val = 0 then (r', pStr, iChar, bTooSmall)
      else if bLine \<and> val = 0x0A then (r', pStr, iChar, bTooSmall)
      else if int iChar < int maxLen - 1
        then ReadString_loop r' (pStr[iChar := val]) maxLen bLine (iChar + 1) bTooSmall
        else ReadString_loop r' pStr maxLen bLine iChar True)"
  by pat_completeness auto
termination
proof (relation "measure (\<lambda>(r, pStr, maxLen, bLine, iChar, bTooSmall).
          if r_bOverflow r then 0 else r_nDataBits r + 8 - r_iCurBit r)")
  show "wf (measure (\<lambda>(r, pStr, maxLen, bLine, iChar, bTooSmall).
          if r_bOverflow r then 0 else r_nDataBits r + 8 - r_iCurBit r))" by simp
next
  fix r :: bf_read and pStr :: "byte list" and maxLen :: nat and bLine :: bool and iChar :: nat
    and bTooSmall :: bool and x :: "byte \<times> bf_read" and val :: byte and r' :: bf_read
  assume "x = ReadChar r" and "(val, r') = x" and "val \<noteq> 0"
  then show "((r', pStr[iChar := val], maxLen, bLine, iChar + 1, bTooSmall),
              (r, pStr, maxLen, bLine, iChar, bTooSmall))
      \<in> measure (\<lambda>(r, pStr, maxLen, bLine, iChar, bTooSmall).
          if r_bOverflow r then 0 else r_nDataBits r + 8 - r_iCurBit r)"
    by (auto simp add: ReadChar_def ReadUBitLong_def split: if_splits)
next
  fix r :: bf_read and pStr :: "byte list" and maxLen :: nat and bLine :: bool and iChar :: nat
    and bTooSmall :: bool and x :: "byte \<times> bf_read" and val :: byte and r' :: bf_read
  assume "x = ReadChar r" and "(val, r') = x" and "val \<noteq> 0"
  then show "((r', pStr, maxLen, bLine, iChar, True), (r, pStr, maxLen, bLine, iChar, bTooSmall))
      \<in> measure (\<lambda>(r, pStr, maxLen, bLine, iChar, bTooSmall).
          if r_bOverflow r then 0 else r_nDataBits r + 8 - r_iCurBit r)"
    by (auto simp add: ReadChar_def ReadUBitLong_def split: if_splits)
qed

declare ReadString_loop.simps [simp del]

text \<open>The result is the returned \<open>bool\<close>, the destination buffer, \<open>*pOutNumChars\<close> and
  the reader.\<close>

definition ReadString ::
  "bf_read \<Rightarrow> byte list \<Rightarrow> nat \<Rightarrow> bool \<Rightarrow> bool \<times> byte list \<times> nat \<times> bf_read" where
  "ReadString r pStr maxLen bLine =
     (let (r', pStr', iChar, bTooSmall) = ReadString_loop r pStr maxLen bLine 0 False;
          pStr'' = pStr'[iChar := 0]
      in (\<not> r_bOverflow r' \<and> \<not> bTooSmall, pStr'', iChar, r'))"

subsection \<open>Quantized coordinates\<close>

text \<open>Modelled from the spec: the protocol constants of coordsize.h, which is not part of
  the sources.  The spec fixes the integer part at 14 bits and the fractional part at
  5 bits, with the power-of-two denominator \<open>1 << 5\<close> and the quantization step
  \<open>1 / COORD_DENOMINATOR\<close>.\<close>

definition COORD_INTEGER_BITS :: nat where "COORD_INTEGER_BITS = 14"
definition COORD_FRACTIONAL_BITS :: nat where "COORD_FRACTIONAL_BITS = 5"
definition COORD_DENOMINATOR :: int where "COORD_DENOMINATOR = 2 ^ COORD_FRACTIONAL_BITS"
definition COORD_RESOLUTION :: rat where "COORD_RESOLUTION = 1 / of_int COORD_DENOMINATOR"

text \<open>The \<open>float\<close> values of \<open>WriteBitCoord\<close> and \<open>ReadBitCoord\<close> are modelled as
  rational numbers.  On floats of magnitude below \<open>2^15\<close> every floating-point operation
  of the two functions is exact (a product with the power of two \<open>COORD_DENOMINATOR\<close>, a
  truncation to \<open>int\<close>, comparisons, a negation, and the sum of an integer of at most 15
  bits and a multiple of \<open>1/32\<close> below 1, which fits the 24-bit significand), so the
  rational model computes the same values; \<open>-0.0\<close> and \<open>0.0\<close> are the one rational 0
  and are treated alike by every comparison and conversion of the source.
  \<open>c_int\<close> is the conversion \<open>(int)x\<close>, which truncates towards zero.\<close>

definition c_int :: "rat \<Rightarrow> int" where
  "c_int x = (if 0 \<le> x then \<lfloor>x\<rfloor> else - \<lfloor>- x\<rfloor>)"

text \<open>\<open>bf_write::WriteBitCoord\<close>.  \<open>WriteOneBit(intVal)\<close> writes a 1 for any nonzero
  argument.\<close>

definition WriteBitCoord :: "bf_write \<Rightarrow> rat \<Rightarrow> bf_write" where
  "WriteBitCoord w f =
     (let signBit = (f \<le> - COORD_RESOLUTION);
          intVal = c_int \<bar>f\<bar>;
          fractVal = \<bar>c_int (f * of_int COORD_DENOMINATOR)\<bar> AND (COORD_DENOMINATOR - 1);
          w = WriteOneBit w (intVal \<noteq> 0);
          w = WriteOneBit w (fractVal \<noteq> 0)
      in if intVal \<noteq> 0 \<or> fractVal \<noteq> 0 then
           (let w = WriteOneBit w signBit;
                w = (if intVal \<noteq> 0
                     then WriteUBitLong w (word_of_int (intVal - 1)) COORD_INTEGER_BITS else w);
                w = (if fractVal \<noteq> 0
                     then WriteUBitLong w (word_of_int fractVal) COORD_FRACTIONAL_BITS else w)
            in w)
         else w)"

text \<open>\<open>bf_read::ReadBitCoord\<close>.  \<open>intval\<close> and \<open>fractval\<close> are \<open>int\<close> variables holding
  the unsigned values read.\<close>

definition ReadBitCoord :: "bf_read \<Rightarrow> rat \<times> bf_read" where
  "ReadBitCoord r =
     (let (intval, r) = ReadOneBit r;
          (fractval, r) = ReadOneBit r
      in if intval \<noteq> 0 \<or> fractval \<noteq> 0 then
           (let (signbit, r) = ReadOneBit r;
                (intval, r) = (if intval \<noteq> 0
                               then (let (v, r) = ReadUBitLong r COORD_INTEGER_BITS in (v + 1, r))
                               else (intval, r));
                (fractval, r) = (if fractval \<noteq> 0
                                 then ReadUBitLong r COORD_FRACTIONAL_BITS else (fractval, r));
                value = of_int (sint intval) + of_int (sint fractval) * COORD_RESOLUTION;
                value = (if signbit \<noteq> 0 then - value else value)
            in (value, r))
         else (0, r))"

subsection \<open>The bytes ahead of a reader\<close>

text \<open>\<open>stream_byte r k\<close> is the \<open>k\<close>-th group of eight bits after the cursor of \<open>r\<close>
  (what the \<open>k\<close>-th successive in-range \<open>ReadUBitLong(8)\<close> returns), and \<open>groups32 r n\<close>,
  \<open>groups64 r n\<close> are the low seven bits of the first \<open>n\<close> of them, assembled least
  significant group first.  They are used to state what the varint readers return.\<close>

definition stream_byte :: "bf_read \<Rightarrow> nat \<Rightarrow> uint32" where
  "stream_byte r k = load_bits (r_pData r) (r_iCurBit r + 8 * k) 8"

primrec groups32 :: "bf_read \<Rightarrow> nat \<Rightarrow> uint32" where
  "groups32 r 0 = 0"
| "groups32 r (Suc n) = (groups32 r n OR push_bit (7 * n) (stream_byte r n AND 0x7F))"

primrec groups64 :: "bf_read \<Rightarrow> nat \<Rightarrow> uint64" where
  "groups64 r 0 = 0"
| "groups64 r (Suc n) = (groups64 r n OR push_bit (7 * n) (ucast (stream_byte r n) AND 0x7F))"

text \<open>\<open>varint_byte v k\<close> is byte \<open>k\<close> of the base-128 encoding of \<open>v\<close>: the seven bits of
  group \<open>k\<close>, with the continuation bit \<open>0x80\<close> when higher groups follow.  It is used to
  state what the varint writers store.\<close>

definition varint_byte :: "uint32 \<Rightarrow> nat \<Rightarrow> uint32" where
  "varint_byte v k =
     (if drop_bit (7 * k) v > 0x7F then (drop_bit (7 * k) v AND 0x7F) OR 0x80
      else drop_bit (7 * k) v AND 0x7F)"

subsection \<open>Concrete states used in the examples\<close>

text \<open>An eight-byte writer over zeroed memory, cursor at bit 0.\<close>

definition W0 :: bf_write where "W0 = StartWriting (replicate 8 0) 8 0 (- 1)"

text \<open>A twelve-byte writer over zeroed memory, cursor at bit 0: room for the ten bytes
  the fast path of \<open>WriteVarInt64\<close> asks for.\<close>

definition W12 :: bf_write where "W12 = StartWriting (replicate 12 0) 12 0 (- 1)"

text \<open>The reader a caller binds to the bytes a writer produced: the writer's memory and
  byte count, from bit 0, all written bits valid (\<open>bf_read(pData, nBytes, nBits)\<close> with
  the writer's \<open>GetData()\<close>, \<open>GetNumBytesWritten()\<close> being within \<open>m_nDataBytes\<close>).\<close>

definition reader_of :: "bf_write \<Rightarrow> bf_read" where
  "reader_of w = StartReading (w_pData w) (w_nDataBytes w) 0 (int (w_iCurBit w))"

text \<open>A corrupt stream: twelve bytes that all carry the continuation bit.\<close>

definition R_corrupt :: bf_read where "R_corrupt = StartReading (replicate 12 0xFF) 12 0 (- 1)"

text \<open>A reader over four bytes \<open>0xFF\<close> of which only the first three bits are valid.\<close>

definition R_short :: bf_read where "R_short = StartReading (replicate 4 0xFF) 4 0 3"

text \<open>Readers over the characters \<open>abc\<close> followed by a terminator, and over the four
  characters \<open>abcd\<close> with no terminator inside the valid data.\<close>

definition R_abc :: bf_read where
  "R_abc = StartReading [0x61, 0x62, 0x63, 0, 0x64, 0, 0, 0] 8 0 (- 1)"

definition R_noterm :: bf_read where
  "R_noterm = StartReading [0x61, 0x62, 0x63, 0x64] 4 0 (- 1)"



section \<open>Bit-level lemmas\<close>

lemma length_put_bit: "length (put_bit m i b) = length m"
  by (simp add: put_bit_def)

lemma get_put_bit:
  "i div 8 < length m \<Longrightarrow> get_bit (put_bit m i b) j = (if j = i then b else get_bit m j)"
proof (cases "j div 8 = i div 8")
  case same: True
  assume len: "i div 8 < length m"
  have "j mod 8 = i mod 8 \<longleftrightarrow> j = i"
    using same by (metis div_mult_mod_eq)
  moreover have "i mod 8 < 8" by simp
  ultimately show ?thesis using same len
    by (auto simp add: get_bit_def put_bit_def bit_set_bit_iff bit_unset_bit_iff)
next
  case False
  then show ?thesis by (auto simp add: get_bit_def put_bit_def)
qed

lemma length_store_bits: "length (store_bits m c n v) = length m"
  by (induction n) (simp_all add: length_put_bit)

lemma get_store_bits:
  "c + n \<le> 8 * length m \<Longrightarrow>
   get_bit (store_bits m c n v) j = (if c \<le> j \<and> j < c + n then bit v (j - c) else get_bit m j)"
proof (induction n)
  case 0
  then show ?case by auto
next
  case (Suc n)
  then have "(c + n) div 8 < length (store_bits m c n v)"
    by (simp add: length_store_bits) 
  then show ?case using Suc
    by (auto simp add: get_put_bit less_Suc_eq)
qed

lemma bit_load_bits:
  "bit (load_bits m c n) k \<longleftrightarrow> k < n \<and> k < 32 \<and> get_bit m (c + k)"
  by (induction n) (auto simp add: bit_or_iff bit_exp_iff less_Suc_eq dest: bit_imp_le_length)

lemma load_store_bits:
  "c + n \<le> 8 * length m \<Longrightarrow> load_bits (store_bits m c n v) c n = take_bit n v"
  by (rule bit_word_eqI) (auto simp add: bit_load_bits get_store_bits bit_take_bit_iff)

lemma load_store_bits_other:
  "c' + n' \<le> 8 * length m \<Longrightarrow> c + n \<le> c' \<or> c' + n' \<le> c \<Longrightarrow>
   load_bits (store_bits m c' n' v) c n = load_bits m c n"
  by (rule bit_word_eqI) (auto simp add: bit_load_bits get_store_bits)

subsection \<open>Sign extension\<close>

lemma preserve_mask: "drop_bit (32 - n) (0x7FFFFFFF :: 32 word) = mask (n - 1)" if "1 \<le> n" "n \<le> 32"
proof -
  have "(0x7FFFFFFF :: 32 word) = mask 31" by (simp add: mask_eq_exp_minus_1)
  moreover have "drop_bit (32 - n) (mask 31 :: 32 word) = mask (31 - (32 - n))"
    by (rule bit_word_eqI) (auto simp add: bit_drop_bit_eq bit_mask_iff)
  moreover have "31 - (32 - n) = n - 1" using that by simp
  ultimately show ?thesis by (simp only:)
qed

lemma fits_bit:
  fixes v :: "32 word"
  assumes "1 \<le> n" "n \<le> 32" "- (2 ^ (n - 1)) \<le> sint v" "sint v < 2 ^ (n - 1)" "k < 32"
  shows "bit v k \<longleftrightarrow> bit v (min (n - 1) k)"
proof -
  have "signed_take_bit (n - 1) (sint v) = sint v"
    using assms by (intro signed_take_bit_int_eq_self) auto
  then have "bit (sint v) k \<longleftrightarrow> bit (signed_take_bit (n - 1) (sint v)) k"
    by simp
  also have "\<dots> \<longleftrightarrow> bit (sint v) (min (n - 1) k)"
    by (simp only: bit_signed_take_bit_iff possible_bit_int simp_thms)
  finally have "bit (sint v) k \<longleftrightarrow> bit (sint v) (min (n - 1) k)" .
  moreover have "min (n - 1) k < 32" using assms by simp
  ultimately show ?thesis using assms(5) by (simp add: bit_sint_iff)
qed

lemma sbit_preserved:
  fixes v :: "32 word"
  assumes "1 \<le> n" "n \<le> 32" "- (2 ^ (n - 1)) \<le> sint v" "sint v < 2 ^ (n - 1)"
  shows "(v AND mask (n - 1)) OR (signed_drop_bit 31 v AND NOT (mask (n - 1))) = v"
proof (rule bit_word_eqI)
  fix k assume k: "k < LENGTH(32)"
  then have k32: "k < 32" by simp
  have b: "bit v 31 \<longleftrightarrow> bit v (n - 1)" using fits_bit [OF assms, of 31] assms by (simp add: min_def)
  have lhs: "bit ((v AND mask (n - 1)) OR (signed_drop_bit 31 v AND NOT (mask (n - 1)))) k
      \<longleftrightarrow> (if k < n - 1 then bit v k else bit v 31)"
    using k32 by (cases "k = 0") (simp_all add: bit_or_iff bit_and_iff bit_mask_iff bit_not_iff bit_signed_drop_bit_iff)
  show "bit ((v AND mask (n - 1)) OR (signed_drop_bit 31 v AND NOT (mask (n - 1)))) k \<longleftrightarrow> bit v k"
  proof (cases "k < n - 1")
    case True
    then show ?thesis using lhs by simp
  next
    case False
    then have "min (n - 1) k = n - 1" by simp
    then have "bit v k \<longleftrightarrow> bit v (n - 1)" using fits_bit [OF assms k32] by simp
    then show ?thesis using lhs b False by simp
  qed
qed

lemma sbit_decode:
  fixes v :: "32 word"
  assumes "1 \<le> n" "n \<le> 32" "- (2 ^ (n - 1)) \<le> sint v" "sint v < 2 ^ (n - 1)"
  shows "(if take_bit n v \<ge> push_bit (n - 1) 1 then take_bit n v - push_bit (n - 1) 1 - push_bit (n - 1) 1 else take_bit n v) = v"
proof -
  have bitk: "bit v k \<longleftrightarrow> bit v (n - 1)" if "n - 1 \<le> k" "k < 32" for k
    using fits_bit [OF assms that(2)] that(1) by (simp add: min_def)
  have n1: "n - 1 < 32" "Suc (n - 1) = n" using assms by simp_all
  have "take_bit n v < 2 ^ (n - 1) \<longleftrightarrow> take_bit (n - 1) (take_bit n v) = take_bit n v"
    using n1(1) by (simp add: take_bit_eq_mask mask_eq_iff word_2p_lem word_size)
  also have "\<dots> \<longleftrightarrow> \<not> bit v (n - 1)"
  proof
    assume "take_bit (n - 1) (take_bit n v) = take_bit n v"
    then have "bit (take_bit (n - 1) (take_bit n v)) (n - 1) \<longleftrightarrow> bit (take_bit n v) (n - 1)"
      by simp
    then show "\<not> bit v (n - 1)" using assms by (simp add: bit_take_bit_iff)
  next
    assume nb: "\<not> bit v (n - 1)"
    show "take_bit (n - 1) (take_bit n v) = take_bit n v"
    proof (rule bit_word_eqI)
      fix k assume "k < LENGTH(32)"
      then show "bit (take_bit (n - 1) (take_bit n v)) k \<longleftrightarrow> bit (take_bit n v) k"
        using nb bitk [of k] by (cases "k < n - 1") (auto simp add: bit_take_bit_iff)
    qed
  qed
  finally have ge: "take_bit n v \<ge> push_bit (n - 1) 1 \<longleftrightarrow> bit v (n - 1)"
    by (simp add: not_less [symmetric])
  show ?thesis
  proof (cases "bit v (n - 1)")
    case True
    have "(push_bit (n - 1) 1 :: 32 word) + push_bit (n - 1) 1 = 2 ^ n"
      using n1(2) by (metis mult_2 power_Suc push_bit_of_1)
    then have "take_bit n v - push_bit (n - 1) 1 - push_bit (n - 1) 1 = take_bit n v + - (2 ^ n)"
      by (simp add: diff_diff_eq)
    also have "\<dots> = take_bit n v + NOT (mask n)"
      by (simp only: minus_exp_eq_not_mask)
    also have "\<dots> = take_bit n v OR NOT (mask n)"
      by (rule disjunctive_add) (simp add: bit_take_bit_iff bit_not_iff bit_mask_iff)
    also have "\<dots> = v"
    proof (rule bit_word_eqI)
      fix k assume "k < LENGTH(32)"
      then show "bit (take_bit n v OR NOT (mask n)) k \<longleftrightarrow> bit v k"
        using True bitk [of k]
        by (cases "k < n") (auto simp add: bit_or_iff bit_take_bit_iff bit_not_iff bit_mask_iff)
    qed
    finally show ?thesis using True ge by simp
  next
    case False
    have "take_bit n v = v"
    proof (rule bit_word_eqI)
      fix k assume "k < LENGTH(32)"
      then show "bit (take_bit n v) k \<longleftrightarrow> bit v k"
        using False bitk [of k] by (cases "k < n") (auto simp add: bit_take_bit_iff)
    qed
    then show ?thesis using False ge by simp
  qed
qed

section \<open>Fixed-width round trip\<close>

lemma unat_fits: "unat (u :: uint32) < 2 ^ n \<Longrightarrow> take_bit n u = u"
  by (metis take_bit_nat_eq_self_iff unsigned_take_bit_eq word_unat_eq_iff)

lemma write_read_u:
  assumes "\<not> w_bOverflow w"
    and "w_iCurBit w + numbits \<le> w_nDataBits w"
    and "w_nDataBits w \<le> 8 * length (w_pData w)"
    and "w' = WriteUBitLong w u numbits"
    and "r = StartReading (w_pData w') (w_nDataBytes w') (w_iCurBit w) (int (w_nDataBits w'))"
  shows "\<not> w_bOverflow w'" "w_iCurBit w' = w_iCurBit w + numbits"
    "ReadUBitLong r numbits = (take_bit numbits u, r\<lparr> r_iCurBit := w_iCurBit w + numbits \<rparr>)"
proof -
  have w': "w' = w\<lparr> w_pData := store_bits (w_pData w) (w_iCurBit w) numbits u,
              w_iCurBit := w_iCurBit w + numbits \<rparr>"
    using assms by (simp add: WriteUBitLong_def)
  show "\<not> w_bOverflow w'" "w_iCurBit w' = w_iCurBit w + numbits"
    using assms(1) by (simp_all add: w')
  have r: "r_pData r = store_bits (w_pData w) (w_iCurBit w) numbits u" "r_iCurBit r = w_iCurBit w"
    "r_nDataBits r = w_nDataBits w" "\<not> r_bOverflow r"
    by (simp_all add: assms(5) w' StartReading_def)
  have "w_iCurBit w + numbits \<le> 8 * length (w_pData w)" using assms by simp
  then have "load_bits (r_pData r) (r_iCurBit r) numbits = take_bit numbits u"
    by (simp only: r load_store_bits)
  then show "ReadUBitLong r numbits = (take_bit numbits u, r\<lparr> r_iCurBit := w_iCurBit w + numbits \<rparr>)"
    using r assms(2) by (simp add: ReadUBitLong_def)
qed


text \<open>Claim C1.  For every width from 1 to 32 and every value representable in that
  many bits, writing the value with \<open>WriteUBitLong\<close> (unsigned) or \<open>WriteSBitLong\<close>
  (two's complement) into a writer with room for it, and reading it back at the same bit
  offset with \<open>ReadUBitLong\<close> or \<open>ReadSBitLong\<close>, yields the original value; both
  cursors advance by the width and no overflow is raised.\<close>

theorem C1_fixed_width_roundtrip:
  assumes "1 \<le> numbits" and "numbits \<le> 32"
    and "\<not> w_bOverflow w"
    and "w_iCurBit w + numbits \<le> w_nDataBits w"
    and "w_nDataBits w \<le> 8 * length (w_pData w)"
  shows "(unat u < 2 ^ numbits \<longrightarrow>
            (let w' = WriteUBitLong w u numbits;
                 r = StartReading (w_pData w') (w_nDataBytes w') (w_iCurBit w) (int (w_nDataBits w'))
             in \<not> w_bOverflow w' \<and> w_iCurBit w' = w_iCurBit w + numbits \<and>
                ReadUBitLong r numbits = (u, r\<lparr> r_iCurBit := w_iCurBit w + numbits \<rparr>))) \<and>
         (- (2 ^ (numbits - 1)) \<le> sint s \<and> sint s < 2 ^ (numbits - 1) \<longrightarrow>
            (let w' = WriteSBitLong w s numbits;
                 r = StartReading (w_pData w') (w_nDataBytes w') (w_iCurBit w) (int (w_nDataBits w'))
             in \<not> w_bOverflow w' \<and> w_iCurBit w' = w_iCurBit w + numbits \<and>
                ReadSBitLong r numbits = (s, r\<lparr> r_iCurBit := w_iCurBit w + numbits \<rparr>)))"
proof (intro conjI impI)
  assume u: "unat u < 2 ^ numbits"
  define w' where "w' = WriteUBitLong w u numbits"
  define r where "r = StartReading (w_pData w') (w_nDataBytes w') (w_iCurBit w) (int (w_nDataBits w'))"
  note wr = write_read_u [OF assms(3-5) w'_def r_def]
  have "ReadUBitLong r numbits = (u, r\<lparr> r_iCurBit := w_iCurBit w + numbits \<rparr>)"
    using wr(3) unat_fits [OF u] by simp
  then show "let w' = WriteUBitLong w u numbits;
                 r = StartReading (w_pData w') (w_nDataBytes w') (w_iCurBit w) (int (w_nDataBits w'))
             in \<not> w_bOverflow w' \<and> w_iCurBit w' = w_iCurBit w + numbits \<and>
                ReadUBitLong r numbits = (u, r\<lparr> r_iCurBit := w_iCurBit w + numbits \<rparr>)"
    using wr(1,2) unfolding Let_def w'_def [symmetric] r_def [symmetric] by simp
next
  assume s: "- (2 ^ (numbits - 1)) \<le> sint s \<and> sint s < 2 ^ (numbits - 1)"
  have pres: "(s AND mask (numbits - 1)) OR (signed_drop_bit 31 s AND NOT (mask (numbits - 1))) = s"
    using sbit_preserved [of numbits s] assms s by simp
  have dec: "(if take_bit numbits s \<ge> push_bit (numbits - 1) 1
              then take_bit numbits s - push_bit (numbits - 1) 1 - push_bit (numbits - 1) 1
              else take_bit numbits s) = s"
    using sbit_decode [of numbits s] assms s by simp
  have ws: "WriteSBitLong w s numbits = WriteUBitLong w s numbits"
    using assms(1,2) pres by (simp add: WriteSBitLong_def Let_def preserve_mask)
  define w' where "w' = WriteUBitLong w s numbits"
  define r where "r = StartReading (w_pData w') (w_nDataBytes w') (w_iCurBit w) (int (w_nDataBits w'))"
  note wr = write_read_u [OF assms(3-5) w'_def r_def]
  have "ReadSBitLong r numbits = (s, r\<lparr> r_iCurBit := w_iCurBit w + numbits \<rparr>)"
    unfolding ReadSBitLong_def wr(3) using dec by (simp add: Let_def split: if_splits)
  then show "let w' = WriteSBitLong w s numbits;
                 r = StartReading (w_pData w') (w_nDataBytes w') (w_iCurBit w) (int (w_nDataBits w'))
             in \<not> w_bOverflow w' \<and> w_iCurBit w' = w_iCurBit w + numbits \<and>
                ReadSBitLong r numbits = (s, r\<lparr> r_iCurBit := w_iCurBit w + numbits \<rparr>)"
    using wr(1,2) unfolding ws Let_def w'_def [symmetric] r_def [symmetric] by simp
qed




text \<open>The round trip at 9 bits in the eight-byte writer: the unsigned value 300 and the
  signed value -5.\<close>

theorem C1_fixed_width_roundtrip_witness:
  "(let w' = WriteUBitLong W0 300 9;
        r = StartReading (w_pData w') (w_nDataBytes w') (w_iCurBit W0) (int (w_nDataBits w'))
    in \<not> w_bOverflow w' \<and> w_iCurBit w' = w_iCurBit W0 + 9 \<and>
       ReadUBitLong r 9 = (300, r\<lparr> r_iCurBit := w_iCurBit W0 + 9 \<rparr>)) \<and>
   (let w' = WriteSBitLong W0 (- 5) 9;
        r = StartReading (w_pData w') (w_nDataBytes w') (w_iCurBit W0) (int (w_nDataBits w'))
    in \<not> w_bOverflow w' \<and> w_iCurBit w' = w_iCurBit W0 + 9 \<and>
       ReadSBitLong r 9 = (- 5, r\<lparr> r_iCurBit := w_iCurBit W0 + 9 \<rparr>))"
proof -
  have h: "1 \<le> (9::nat)" "(9::nat) \<le> 32" "\<not> w_bOverflow W0" "w_iCurBit W0 + 9 \<le> w_nDataBits W0"
    "w_nDataBits W0 \<le> 8 * length (w_pData W0)"
    by (simp_all add: W0_def StartWriting_def)
  have u: "unat (300 :: uint32) < 2 ^ 9" by simp
  have s: "- (2 ^ (9 - 1)) \<le> sint (- 5 :: uint32) \<and> sint (- 5 :: uint32) < 2 ^ (9 - 1)" by simp
  from C1_fixed_width_roundtrip [OF h, of 300 "- 5"] u s show ?thesis
    by blast
qed

section \<open>Zig-zag mapping\<close>

lemma neg_and_one: "- (z AND 1) = (if bit z 0 then - 1 else 0)" for z :: "'a::len word"
  by (simp add: and_one_eq bit_0 mod_2_eq_odd)

lemma ZigZag32_roundtrip: "ZigZagDecode32 (ZigZagEncode32 v) = v"
proof (rule bit_word_eqI)
  fix k assume "k < LENGTH(32)"
  then have k: "k < 32" by simp
  have p0: "\<not> bit (push_bit 1 v) 0"
    by (simp only: bit_push_bit_iff) simp
  have s0: "bit (signed_drop_bit 31 v) 0 \<longleftrightarrow> bit v 31"
    by (simp add: bit_signed_drop_bit_iff)
  have b0: "bit (ZigZagEncode32 v) 0 \<longleftrightarrow> bit v 31"
    by (simp only: ZigZagEncode32_def bit_xor_iff p0 s0) simp
  have bS: "bit (ZigZagEncode32 v) (Suc j) \<longleftrightarrow> (bit v j \<noteq> bit v 31)" if "Suc j < 32" for j
  proof -
    have pS: "bit (push_bit 1 v) (Suc j) \<longleftrightarrow> bit v j"
      using that by (simp only: bit_push_bit_iff) simp
    have sS: "bit (signed_drop_bit 31 v) (Suc j) \<longleftrightarrow> bit v 31"
      using that by (simp add: bit_signed_drop_bit_iff)
    show ?thesis
      by (simp only: ZigZagEncode32_def bit_xor_iff pS sS)
  qed
  have dec: "bit (ZigZagDecode32 z) k \<longleftrightarrow> ((Suc k < 32 \<and> bit z (Suc k)) \<noteq> bit z 0)" for z
    using k by (auto simp add: ZigZagDecode32_def neg_and_one bit_xor_iff bit_drop_bit_eq dest: bit_imp_le_length)
  show "bit (ZigZagDecode32 (ZigZagEncode32 v)) k \<longleftrightarrow> bit v k"
  proof (cases "Suc k < 32")
    case True
    then show ?thesis using dec b0 bS [OF True] by auto
  next
    case False
    then have "k = 31" using k by simp
    then show ?thesis using dec b0 by auto
  qed
qed

lemma ZigZag64_roundtrip: "ZigZagDecode64 (ZigZagEncode64 v) = v"
proof (rule bit_word_eqI)
  fix k assume "k < LENGTH(64)"
  then have k: "k < 64" by simp
  have p0: "\<not> bit (push_bit 1 v) 0"
    by (simp only: bit_push_bit_iff) simp
  have s0: "bit (signed_drop_bit 63 v) 0 \<longleftrightarrow> bit v 63"
    by (simp add: bit_signed_drop_bit_iff)
  have b0: "bit (ZigZagEncode64 v) 0 \<longleftrightarrow> bit v 63"
    by (simp only: ZigZagEncode64_def bit_xor_iff p0 s0) simp
  have bS: "bit (ZigZagEncode64 v) (Suc j) \<longleftrightarrow> (bit v j \<noteq> bit v 63)" if "Suc j < 64" for j
  proof -
    have pS: "bit (push_bit 1 v) (Suc j) \<longleftrightarrow> bit v j"
      using that by (simp only: bit_push_bit_iff) simp
    have sS: "bit (signed_drop_bit 63 v) (Suc j) \<longleftrightarrow> bit v 63"
      using that by (simp add: bit_signed_drop_bit_iff)
    show ?thesis
      by (simp only: ZigZagEncode64_def bit_xor_iff pS sS)
  qed
  have dec: "bit (ZigZagDecode64 z) k \<longleftrightarrow> ((Suc k < 64 \<and> bit z (Suc k)) \<noteq> bit z 0)" for z
    using k by (auto simp add: ZigZagDecode64_def neg_and_one bit_xor_iff bit_drop_bit_eq dest: bit_imp_le_length)
  show "bit (ZigZagDecode64 (ZigZagEncode64 v)) k \<longleftrightarrow> bit v k"
  proof (cases "Suc k < 64")
    case True
    then show ?thesis using dec b0 bS [OF True] by auto
  next
    case False
    then have "k = 63" using k by simp
    then show ?thesis using dec b0 by auto
  qed
qed

section \<open>Reading variable-length integers\<close>

lemma cont_bit_iff: "x AND 0x80 \<noteq> 0 \<longleftrightarrow> bit x 7" for x :: "'a::len word"
  using and_exp_eq_0_iff_not_bit [of x 7] by simp

lemma cont_bit_ucast: "(ucast b :: uint64) AND 0x80 \<noteq> 0 \<longleftrightarrow> b AND 0x80 \<noteq> 0" for b :: uint32
  by (simp only: cont_bit_iff bit_ucast_iff) simp

lemma ReadUBitLong_cursor:
  "r_iCurBit (snd (ReadUBitLong r n)) \<le> r_iCurBit r + n"
  by (simp add: ReadUBitLong_def)

lemma ReadVarInt32_loop_cursor:
  "count \<le> kMaxVarint32Bytes \<Longrightarrow>
   r_iCurBit (snd (ReadVarInt32_loop r result count)) \<le> r_iCurBit r + 8 * (kMaxVarint32Bytes - count)"
proof (induction r result count rule: ReadVarInt32_loop.induct)
  case (1 r result count)
  show ?case
  proof (cases "count = kMaxVarint32Bytes")
    case True
    then show ?thesis by (simp add: ReadVarInt32_loop.simps)
  next
    case False
    obtain b r' where rd: "ReadUBitLong r 8 = (b, r')" by force
    have cur: "r_iCurBit r' \<le> r_iCurBit r + 8"
      using ReadUBitLong_cursor [of r 8] rd by simp
    have lt: "count < kMaxVarint32Bytes" using False "1.prems" by simp
    show ?thesis
    proof (cases "b AND 0x80 \<noteq> 0")
      case True
      have "r_iCurBit (snd (ReadVarInt32_loop r' (result OR push_bit (7 * count) (b AND 0x7F)) (count + 1)))
          \<le> r_iCurBit r' + 8 * (kMaxVarint32Bytes - (count + 1))"
        using "1.IH" [OF False rd [symmetric] refl refl refl True] lt by simp
      then show ?thesis
        using False True rd cur lt
        by (subst ReadVarInt32_loop.simps) (simp add: Let_def)
    next
      case noCont: False
      then show ?thesis
        using False rd cur lt
        by (subst ReadVarInt32_loop.simps) (simp add: Let_def)
    qed
  qed
qed


lemma ReadVarInt32_loop_cap:
  assumes "\<not> r_bOverflow r" and "r_iCurBit r + 8 * kMaxVarint32Bytes \<le> r_nDataBits r"
    and "\<forall>k < kMaxVarint32Bytes. stream_byte r k AND 0x80 \<noteq> 0"
    and "count \<le> kMaxVarint32Bytes"
  shows "ReadVarInt32_loop (r\<lparr> r_iCurBit := r_iCurBit r + 8 * count \<rparr>) (groups32 r count) count
       = (groups32 r kMaxVarint32Bytes, r\<lparr> r_iCurBit := r_iCurBit r + 8 * kMaxVarint32Bytes \<rparr>)"
  using assms(4)
proof (induction "kMaxVarint32Bytes - count" arbitrary: count)
  case 0
  then have "count = kMaxVarint32Bytes" by simp
  then show ?case by (simp add: ReadVarInt32_loop.simps)
next
  case (Suc d)
  then have lt: "count < kMaxVarint32Bytes" by simp
  have rd: "ReadUBitLong (r\<lparr> r_iCurBit := r_iCurBit r + 8 * count \<rparr>) 8
      = (stream_byte r count, r\<lparr> r_iCurBit := r_iCurBit r + 8 * (count + 1) \<rparr>)"
    using assms(1,2) lt by (simp add: ReadUBitLong_def stream_byte_def)
  have cont: "stream_byte r count AND 0x80 \<noteq> 0" using assms(3) lt by simp
  have IH: "ReadVarInt32_loop (r\<lparr> r_iCurBit := r_iCurBit r + 8 * (count + 1) \<rparr>) (groups32 r (count + 1)) (count + 1)
       = (groups32 r kMaxVarint32Bytes, r\<lparr> r_iCurBit := r_iCurBit r + 8 * kMaxVarint32Bytes \<rparr>)"
    using Suc.hyps(1) [of "count + 1"] Suc.hyps(2) lt by simp
  show ?case
    using lt rd cont IH
    by (subst ReadVarInt32_loop.simps) (simp add: Let_def)
qed

lemma ReadVarInt64_loop_cursor:
  "count \<le> kMaxVarintBytes \<Longrightarrow>
   r_iCurBit (snd (ReadVarInt64_loop r result count)) \<le> r_iCurBit r + 8 * (kMaxVarintBytes - count)"
proof (induction r result count rule: ReadVarInt64_loop.induct)
  case (1 r result count)
  show ?case
  proof (cases "count = kMaxVarintBytes")
    case True
    then show ?thesis by (simp add: ReadVarInt64_loop.simps)
  next
    case False
    obtain b r' where rd: "ReadUBitLong r 8 = (b, r')" by force
    have cur: "r_iCurBit r' \<le> r_iCurBit r + 8"
      using ReadUBitLong_cursor [of r 8] rd by simp
    have lt: "count < kMaxVarintBytes" using False "1.prems" by simp
    show ?thesis
    proof (cases "b AND 0x80 \<noteq> 0")
      case True
      have "r_iCurBit (snd (ReadVarInt64_loop r' (result OR push_bit (7 * count) (ucast b AND 0x7F)) (count + 1)))
          \<le> r_iCurBit r' + 8 * (kMaxVarintBytes - (count + 1))"
        using "1.IH" [OF False rd [symmetric] refl refl refl refl] True lt by (simp add: cont_bit_ucast)
      then show ?thesis
        using False True rd cur lt
        by (subst ReadVarInt64_loop.simps) (simp add: Let_def cont_bit_ucast)
    next
      case noCont: False
      then show ?thesis
        using False rd cur lt
        by (subst ReadVarInt64_loop.simps) (simp add: Let_def cont_bit_ucast)
    qed
  qed
qed


lemma ReadVarInt64_loop_cap:
  assumes "\<not> r_bOverflow r" and "r_iCurBit r + 8 * kMaxVarintBytes \<le> r_nDataBits r"
    and "\<forall>k < kMaxVarintBytes. stream_byte r k AND 0x80 \<noteq> 0"
    and "count \<le> kMaxVarintBytes"
  shows "ReadVarInt64_loop (r\<lparr> r_iCurBit := r_iCurBit r + 8 * count \<rparr>) (groups64 r count) count
       = (groups64 r kMaxVarintBytes, r\<lparr> r_iCurBit := r_iCurBit r + 8 * kMaxVarintBytes \<rparr>)"
  using assms(4)
proof (induction "kMaxVarintBytes - count" arbitrary: count)
  case 0
  then have "count = kMaxVarintBytes" by simp
  then show ?case by (simp add: ReadVarInt64_loop.simps)
next
  case (Suc d)
  then have lt: "count < kMaxVarintBytes" by simp
  have rd: "ReadUBitLong (r\<lparr> r_iCurBit := r_iCurBit r + 8 * count \<rparr>) 8
      = (stream_byte r count, r\<lparr> r_iCurBit := r_iCurBit r + 8 * (count + 1) \<rparr>)"
    using assms(1,2) lt by (simp add: ReadUBitLong_def stream_byte_def)
  have cont: "stream_byte r count AND 0x80 \<noteq> 0" using assms(3) lt by simp
  have IH: "ReadVarInt64_loop (r\<lparr> r_iCurBit := r_iCurBit r + 8 * (count + 1) \<rparr>) (groups64 r (count + 1)) (count + 1)
       = (groups64 r kMaxVarintBytes, r\<lparr> r_iCurBit := r_iCurBit r + 8 * kMaxVarintBytes \<rparr>)"
    using Suc.hyps(1) [of "count + 1"] Suc.hyps(2) lt by simp
  show ?case
    using lt rd cont IH
    by (subst ReadVarInt64_loop.simps) (simp add: Let_def cont_bit_ucast)
qed


text \<open>Claim C6.  \<open>ReadVarInt32\<close> reads at most 5 and \<open>ReadVarInt64\<close> at most 10 groups
  of eight bits, whatever the stream holds: the cursor never moves by more than 40,
  respectively 80 bits.  When that many groups are available and every one of them has
  the continuation bit \<open>0x80\<close> set, the read stops at the cap and returns the partial
  result assembled from the low seven bits of each group.  Both readers are total
  functions: they return on every reader state.\<close>

theorem C6_varint_read_capped:
  "r_iCurBit (snd (ReadVarInt32 r)) \<le> r_iCurBit r + 8 * 5 \<and>
   r_iCurBit (snd (ReadVarInt64 r)) \<le> r_iCurBit r + 8 * 10 \<and>
   (\<not> r_bOverflow r \<and> r_iCurBit r + 8 * 5 \<le> r_nDataBits r \<and>
    (\<forall>k < 5. stream_byte r k AND 0x80 \<noteq> 0) \<longrightarrow>
      ReadVarInt32 r = (groups32 r 5, r\<lparr> r_iCurBit := r_iCurBit r + 8 * 5 \<rparr>)) \<and>
   (\<not> r_bOverflow r \<and> r_iCurBit r + 8 * 10 \<le> r_nDataBits r \<and>
    (\<forall>k < 10. stream_byte r k AND 0x80 \<noteq> 0) \<longrightarrow>
      ReadVarInt64 r = (groups64 r 10, r\<lparr> r_iCurBit := r_iCurBit r + 8 * 10 \<rparr>))"
proof (intro conjI impI)
  show "r_iCurBit (snd (ReadVarInt32 r)) \<le> r_iCurBit r + 8 * 5"
    using ReadVarInt32_loop_cursor [of 0 r 0] by (simp add: ReadVarInt32_def kMaxVarint32Bytes_def)
  show "r_iCurBit (snd (ReadVarInt64 r)) \<le> r_iCurBit r + 8 * 10"
    using ReadVarInt64_loop_cursor [of 0 r 0] by (simp add: ReadVarInt64_def kMaxVarintBytes_def)
next
  assume a: "\<not> r_bOverflow r \<and> r_iCurBit r + 8 * 5 \<le> r_nDataBits r \<and>
    (\<forall>k < 5. stream_byte r k AND 0x80 \<noteq> 0)"
  show "ReadVarInt32 r = (groups32 r 5, r\<lparr> r_iCurBit := r_iCurBit r + 8 * 5 \<rparr>)"
    using ReadVarInt32_loop_cap [of r 0] a by (simp add: ReadVarInt32_def kMaxVarint32Bytes_def)
next
  assume a: "\<not> r_bOverflow r \<and> r_iCurBit r + 8 * 10 \<le> r_nDataBits r \<and>
    (\<forall>k < 10. stream_byte r k AND 0x80 \<noteq> 0)"
  show "ReadVarInt64 r = (groups64 r 10, r\<lparr> r_iCurBit := r_iCurBit r + 8 * 10 \<rparr>)"
    using ReadVarInt64_loop_cap [of r 0] a by (simp add: ReadVarInt64_def kMaxVarintBytes_def)
qed

lemma R_corrupt_bytes: "\<forall>k \<in> {..<10}. stream_byte R_corrupt k AND 0x80 \<noteq> 0"
  by code_simp

text \<open>On twelve bytes \<open>0xFF\<close> both reads stop at their cap with every result bit
  set.\<close>

theorem C6_varint_read_capped_witness:
  "ReadVarInt32 R_corrupt = (0xFFFFFFFF, R_corrupt\<lparr> r_iCurBit := 40 \<rparr>) \<and>
   ReadVarInt64 R_corrupt = (0xFFFFFFFFFFFFFFFF, R_corrupt\<lparr> r_iCurBit := 80 \<rparr>)"
proof -
  have h: "\<not> r_bOverflow R_corrupt" "r_iCurBit R_corrupt = 0" "r_nDataBits R_corrupt = 96"
    by (simp_all add: R_corrupt_def StartReading_def)
  have c10: "\<forall>k < 10. stream_byte R_corrupt k AND 0x80 \<noteq> 0"
    using R_corrupt_bytes by simp
  then have c5: "\<forall>k < 5. stream_byte R_corrupt k AND 0x80 \<noteq> 0" by simp
  have g: "groups32 R_corrupt 5 = 0xFFFFFFFF" "groups64 R_corrupt 10 = 0xFFFFFFFFFFFFFFFF"
    by code_simp+
  show ?thesis
    using C6_varint_read_capped [of R_corrupt] h c5 c10 g by simp
qed

section \<open>Writing variable-length integers\<close>

text \<open>Claim C2, at the input \<open>16384\<close>.  With the cursor byte-aligned and ten bytes of
  capacity left, \<open>WriteVarInt64\<close> takes its fast path, whose size computation has no
  case for three or four bytes: it stores the two bytes \<open>0x80 0x00\<close> and moves the
  cursor by 16 bits, \<open>ReadVarInt64\<close> then returns 0, while \<open>ByteSizeVarInt64\<close> is 3 and
  the per-byte path (taken in the eight-byte writer) stores \<open>0x80 0x80 0x01\<close>, which
  reads back as 16384.\<close>

theorem C2_WriteVarInt64_fast_path_16384:
  "w_pData (WriteVarInt64 W12 16384) = [0x80, 0, 0, 0, 0, 0, 0, 0, 0, 0, 0, 0] \<and>
   w_iCurBit (WriteVarInt64 W12 16384) = 16 \<and>
   fst (ReadVarInt64 (reader_of (WriteVarInt64 W12 16384))) = 0 \<and>
   ByteSizeVarInt64 16384 = 3 \<and>
   w_pData (WriteVarInt64 W0 16384) = [0x80, 0x80, 1, 0, 0, 0, 0, 0] \<and>
   w_iCurBit (WriteVarInt64 W0 16384) = 24 \<and>
   fst (ReadVarInt64 (reader_of (WriteVarInt64 W0 16384))) = 16384"
  by code_simp

text \<open>Claim C3, at the input \<open>2^31\<close>.  \<open>WriteSignedVarInt64\<close> stores the five bytes of
  the zig-zag code \<open>2^32\<close> and \<open>ReadVarInt64\<close> reads that code back, but
  \<open>ReadSignedVarInt64\<close> keeps only its low 32 bits before decoding and returns 0.  At
  the most negative value it returns \<open>-2^31\<close>.\<close>

theorem C3_ReadSignedVarInt64_truncates:
  "fst (ReadVarInt64 (reader_of (WriteSignedVarInt64 W12 (2 ^ 31)))) = ZigZagEncode64 (2 ^ 31) \<and>
   fst (ReadSignedVarInt64 (reader_of (WriteSignedVarInt64 W12 (2 ^ 31)))) = 0 \<and>
   fst (ReadSignedVarInt64 (reader_of (WriteSignedVarInt64 W12 (- (2 ^ 63))))) = - (2 ^ 31)"
  by code_simp

section \<open>Peeking\<close>

lemma load_bits_one: "load_bits m c 1 = (if get_bit m c then 1 else 0)"
  by simp

lemma PeekUBitLong_loop_in_range:
  assumes "\<not> r_bOverflow r" and "r_iCurBit r + numbits \<le> r_nDataBits r" and "i \<le> numbits"
  shows "fst (PeekUBitLong_loop (r\<lparr> r_iCurBit := r_iCurBit r + i \<rparr>)
              (load_bits (r_pData r) (r_iCurBit r) i) i numbits)
       = load_bits (r_pData r) (r_iCurBit r) numbits"
  using assms(3)
proof (induction "numbits - i" arbitrary: i)
  case 0
  then have "i = numbits" by simp
  then show ?case by (simp add: PeekUBitLong_loop.simps)
next
  case (Suc d)
  then have lt: "i < numbits" by simp
  have rd: "ReadOneBit (r\<lparr> r_iCurBit := r_iCurBit r + i \<rparr>)
      = (if get_bit (r_pData r) (r_iCurBit r + i) then 1 else 0, r\<lparr> r_iCurBit := r_iCurBit r + (i + 1) \<rparr>)"
    using assms(1,2) lt by (simp add: ReadOneBit_def ReadUBitLong_def)
  have acc: "load_bits (r_pData r) (r_iCurBit r) i
        OR push_bit i (if get_bit (r_pData r) (r_iCurBit r + i) then 1 else 0)
      = load_bits (r_pData r) (r_iCurBit r) (i + 1)"
    by simp
  have IH: "fst (PeekUBitLong_loop (r\<lparr> r_iCurBit := r_iCurBit r + (i + 1) \<rparr>)
              (load_bits (r_pData r) (r_iCurBit r) (i + 1)) (i + 1) numbits)
       = load_bits (r_pData r) (r_iCurBit r) numbits"
    using Suc.hyps(1) [of "i + 1"] Suc.hyps(2) lt by simp
  show ?case
    by (subst PeekUBitLong_loop.simps) (simp only: lt if_True rd Let_def prod.case acc IH)
qed

lemma PeekUBitLong_loop_overflowed:
  "r_bOverflow r \<Longrightarrow> PeekUBitLong_loop r acc i numbits = (acc, r)"
proof (induction "numbits - i" arbitrary: i acc)
  case 0
  then show ?case by (simp add: PeekUBitLong_loop.simps)
next
  case (Suc d)
  then have lt: "i < numbits" by simp
  have rd: "ReadOneBit r = (0, r)" using Suc.prems by (simp add: ReadOneBit_def ReadUBitLong_def)
  have "PeekUBitLong_loop r acc (i + 1) numbits = (acc, r)"
    using Suc.hyps(1) [of "i + 1" acc] Suc.hyps(2) Suc.prems by simp
  then show ?case
    using lt rd by (subst PeekUBitLong_loop.simps) simp
qed

lemma PeekUBitLong_loop_partial:
  assumes "\<not> r_bOverflow r" and "r_iCurBit r + k \<le> r_nDataBits r \<or> k = 0"
    and "r_nDataBits r \<le> r_iCurBit r + k" and "k < numbits" and "i \<le> k"
  shows "fst (PeekUBitLong_loop (r\<lparr> r_iCurBit := r_iCurBit r + i \<rparr>)
              (load_bits (r_pData r) (r_iCurBit r) i) i numbits)
       = load_bits (r_pData r) (r_iCurBit r) k"
  using assms(5)
proof (induction "k - i" arbitrary: i)
  case 0
  then have ik: "i = k" by simp
  have lt: "i < numbits" using ik assms(4) by simp
  define r1 where "r1 = r\<lparr> r_iCurBit := r_iCurBit r + i, r_bOverflow := True \<rparr>"
  have rd: "ReadOneBit (r\<lparr> r_iCurBit := r_iCurBit r + i \<rparr>) = (0, r1)"
    using assms(1,3) ik by (simp add: ReadOneBit_def ReadUBitLong_def r1_def)
  have rest: "PeekUBitLong_loop r1 acc (i + 1) numbits = (acc, r1)" for acc
    by (rule PeekUBitLong_loop_overflowed) (simp add: r1_def)
  show ?case
    by (subst PeekUBitLong_loop.simps) (simp only: lt if_True rd Let_def prod.case rest, simp add: ik)
next
  case (Suc d)
  then have lt: "i < k" by simp
  then have fit: "r_iCurBit r + k \<le> r_nDataBits r" using assms(2) by auto
  have ltn: "i < numbits" using lt assms(4) by simp
  have rd: "ReadOneBit (r\<lparr> r_iCurBit := r_iCurBit r + i \<rparr>)
      = (if get_bit (r_pData r) (r_iCurBit r + i) then 1 else 0, r\<lparr> r_iCurBit := r_iCurBit r + (i + 1) \<rparr>)"
    using assms(1) fit lt by (simp add: ReadOneBit_def ReadUBitLong_def)
  have acc: "load_bits (r_pData r) (r_iCurBit r) i
        OR push_bit i (if get_bit (r_pData r) (r_iCurBit r + i) then 1 else 0)
      = load_bits (r_pData r) (r_iCurBit r) (i + 1)"
    by simp
  have IH: "fst (PeekUBitLong_loop (r\<lparr> r_iCurBit := r_iCurBit r + (i + 1) \<rparr>)
              (load_bits (r_pData r) (r_iCurBit r) (i + 1)) (i + 1) numbits)
       = load_bits (r_pData r) (r_iCurBit r) k"
    using Suc.hyps(1) [of "i + 1"] Suc.hyps(2) lt by simp
  show ?case
    by (subst PeekUBitLong_loop.simps) (simp only: ltn if_True rd Let_def prod.case acc IH)
qed

lemma PeekUBitLong_past_end:
  assumes "\<not> r_bOverflow r" and "r_nDataBits r < r_iCurBit r + numbits"
  shows "fst (PeekUBitLong r numbits)
       = load_bits (r_pData r) (r_iCurBit r) (r_nDataBits r - r_iCurBit r)"
proof (cases "numbits = 0")
  case True
  then have "r_nDataBits r - r_iCurBit r = 0" using assms(2) by simp
  then show ?thesis
    using True by (simp add: PeekUBitLong_def PeekUBitLong_loop.simps)
next
  case False
  define k where "k = r_nDataBits r - r_iCurBit r"
  have a: "r_iCurBit r + k \<le> r_nDataBits r \<or> k = 0" "r_nDataBits r \<le> r_iCurBit r + k"
    "k < numbits"
    using assms(2) False unfolding k_def by linarith+
  have "fst (PeekUBitLong_loop r 0 0 numbits) = load_bits (r_pData r) (r_iCurBit r) k"
    using PeekUBitLong_loop_partial [OF assms(1) a, of 0] by simp
  then show ?thesis
    by (simp add: PeekUBitLong_def Let_def case_prod_beta k_def)
qed

text \<open>Claim C10, as amended.  After \<open>PeekUBitLong\<close> the whole reader state, cursor and
  overflow flag included, is the state before the call, for every state and width.  The
  value returned is the value \<open>ReadUBitLong\<close> would return from that state whenever the
  reader is already overflowed or the requested bits lie within the valid data.  When the
  reader is not overflowed and fewer than \<open>numbits\<close> valid bits remain, the peek returns
  the \<open>m_nDataBits - m_iCurBit\<close> bits that remain (bit \<open>i\<close> of the result is stream bit
  \<open>m_iCurBit + i\<close> while that lies before \<open>m_nDataBits\<close>, and 0 above), whereas
  \<open>ReadUBitLong\<close> returns 0.\<close>

theorem C10_peek_restores_state:
  "snd (PeekUBitLong r numbits) = r \<and>
   (r_bOverflow r \<or> r_iCurBit r + numbits \<le> r_nDataBits r \<longrightarrow>
      fst (PeekUBitLong r numbits) = fst (ReadUBitLong r numbits)) \<and>
   (\<not> r_bOverflow r \<and> r_nDataBits r < r_iCurBit r + numbits \<longrightarrow>
      fst (PeekUBitLong r numbits)
        = load_bits (r_pData r) (r_iCurBit r) (r_nDataBits r - r_iCurBit r) \<and>
      (\<forall>i. bit (fst (PeekUBitLong r numbits)) i \<longleftrightarrow>
         i < 32 \<and> r_iCurBit r + i < r_nDataBits r \<and> get_bit (r_pData r) (r_iCurBit r + i)) \<and>
      fst (ReadUBitLong r numbits) = 0)"
proof (intro conjI impI)
  show "snd (PeekUBitLong r numbits) = r"
    by (simp add: PeekUBitLong_def Let_def split: prod.splits)
next
  assume a: "r_bOverflow r \<or> r_iCurBit r + numbits \<le> r_nDataBits r"
  show "fst (PeekUBitLong r numbits) = fst (ReadUBitLong r numbits)"
  proof (cases "r_bOverflow r")
    case True
    then show ?thesis
      by (simp add: PeekUBitLong_def PeekUBitLong_loop_overflowed ReadUBitLong_def)
  next
    case False
    then have fit: "r_iCurBit r + numbits \<le> r_nDataBits r" using a by simp
    have "fst (PeekUBitLong_loop r 0 0 numbits) = load_bits (r_pData r) (r_iCurBit r) numbits"
      using PeekUBitLong_loop_in_range [OF False fit, of 0] by simp
    then show ?thesis
      using False fit by (simp add: PeekUBitLong_def ReadUBitLong_def Let_def case_prod_beta)
  qed
next
  assume b: "\<not> r_bOverflow r \<and> r_nDataBits r < r_iCurBit r + numbits"
  then have no: "\<not> r_bOverflow r" and past: "r_nDataBits r < r_iCurBit r + numbits" by simp_all
  show v: "fst (PeekUBitLong r numbits)
      = load_bits (r_pData r) (r_iCurBit r) (r_nDataBits r - r_iCurBit r)"
    using no past by (rule PeekUBitLong_past_end)
  show "\<forall>i. bit (fst (PeekUBitLong r numbits)) i \<longleftrightarrow>
         i < 32 \<and> r_iCurBit r + i < r_nDataBits r \<and> get_bit (r_pData r) (r_iCurBit r + i)"
    unfolding v by (auto simp add: bit_load_bits)
  show "fst (ReadUBitLong r numbits) = 0"
    using no past by (simp add: ReadUBitLong_def)
qed

text \<open>Claim C10 as stated fails past the end of the data: with three valid bits left,
  all set, peeking eight bits returns 7 (the bits that could be read), while
  \<open>ReadUBitLong\<close> of eight bits returns 0.\<close>

theorem C10_peek_past_end_counterexample:
  "fst (PeekUBitLong R_short 8) = 7 \<and> fst (ReadUBitLong R_short 8) = 0"
  by code_simp

text \<open>On that reader a peek of the three valid bits agrees with the read, and a peek of
  eight bits returns the three valid bits and leaves the overflow flag clear.\<close>

theorem C10_peek_restores_state_witness:
  "snd (PeekUBitLong R_short 3) = R_short \<and> fst (PeekUBitLong R_short 3) = 7 \<and>
   fst (ReadUBitLong R_short 3) = 7 \<and> \<not> r_bOverflow (snd (PeekUBitLong R_short 8)) \<and>
   fst (PeekUBitLong R_short 8) = load_bits (r_pData R_short) 0 3 \<and>
   load_bits (r_pData R_short) 0 3 = 7 \<and> fst (ReadUBitLong R_short 8) = 0"
proof -
  have h: "r_bOverflow R_short \<or> r_iCurBit R_short + 3 \<le> r_nDataBits R_short"
    by (simp add: R_short_def StartReading_def)
  have h8: "\<not> r_bOverflow R_short \<and> r_nDataBits R_short < r_iCurBit R_short + 8"
    by (simp add: R_short_def StartReading_def)
  have v: "fst (ReadUBitLong R_short 3) = 7" by code_simp
  have o: "\<not> r_bOverflow R_short" "r_iCurBit R_short = 0" "r_nDataBits R_short = 3"
    by (simp_all add: R_short_def StartReading_def)
  have g: "load_bits (r_pData R_short) 0 3 = 7" by code_simp
  show ?thesis
    using C10_peek_restores_state [of R_short 3] C10_peek_restores_state [of R_short 8] h h8 v o g
    by simp
qed

section \<open>Reading strings\<close>

lemma ReadString_loop_bounds:
  "iChar < maxLen \<Longrightarrow>
   (case ReadString_loop r pStr maxLen bLine iChar bTooSmall of
      (r', pStr', n, b) \<Rightarrow> n < maxLen \<and> length pStr' = length pStr)"
proof (induction r pStr maxLen bLine iChar bTooSmall rule: ReadString_loop.induct)
  case (1 r pStr maxLen bLine iChar bTooSmall)
  obtain val r' where rd: "ReadChar r = (val, r')" by force
  show ?case
  proof (cases "val = 0 \<or> (bLine \<and> val = 0x0A)")
    case True
    then show ?thesis using rd "1.prems"
      by (subst ReadString_loop.simps) auto
  next
    case False
    then have nz: "val \<noteq> 0" and nl: "\<not> (bLine \<and> val = 0x0A)" by auto
    show ?thesis
    proof (cases "int iChar < int maxLen - 1")
      case True
      then have "iChar + 1 < maxLen" by simp
      then have "case ReadString_loop r' (pStr[iChar := val]) maxLen bLine (iChar + 1) bTooSmall of
          (r', pStr', n, b) \<Rightarrow> n < maxLen \<and> length pStr' = length (pStr[iChar := val])"
        using "1.IH"(1) [OF rd [symmetric] refl nz nl True] by simp
      then show ?thesis using rd nz nl True
        by (subst ReadString_loop.simps) (auto simp add: Let_def)
    next
      case notless: False
      have "case ReadString_loop r' pStr maxLen bLine iChar True of
          (r', pStr', n, b) \<Rightarrow> n < maxLen \<and> length pStr' = length pStr"
        using "1.IH"(2) [OF rd [symmetric] refl nz nl notless] "1.prems" by simp
      then show ?thesis using rd nz nl notless
        by (subst ReadString_loop.simps) (auto simp add: Let_def)
    qed
  qed
qed


lemma ReadString_loop_in_range:
  fixes cs :: "byte list" and t :: byte
  assumes "\<not> r_bOverflow r" and "r_iCurBit r + 8 * (length cs + 1) \<le> r_nDataBits r"
    and "\<forall>k < length cs. ucast (stream_byte r k) = cs ! k"
    and "\<forall>c \<in> set cs. c \<noteq> 0 \<and> (bLine \<longrightarrow> c \<noteq> 0x0A)"
    and "ucast (stream_byte r (length cs)) = t" and "t = 0 \<or> (bLine \<and> t = 0x0A)"
    and "1 \<le> maxLen" and "maxLen \<le> length pStr" and "k \<le> length cs"
  shows "ReadString_loop (r\<lparr> r_iCurBit := r_iCurBit r + 8 * k \<rparr>)
           (take (min k (maxLen - 1)) cs @ drop (min k (maxLen - 1)) pStr)
           maxLen bLine (min k (maxLen - 1)) (maxLen - 1 < k)
       = (r\<lparr> r_iCurBit := r_iCurBit r + 8 * (length cs + 1) \<rparr>,
          take (min (length cs) (maxLen - 1)) cs @ drop (min (length cs) (maxLen - 1)) pStr,
          min (length cs) (maxLen - 1), maxLen - 1 < length cs)"
  using assms(9)
proof (induction "length cs - k" arbitrary: k)
  case 0
  then have k: "k = length cs" by simp
  have rd: "ReadChar (r\<lparr> r_iCurBit := r_iCurBit r + 8 * k \<rparr>)
      = (t, r\<lparr> r_iCurBit := r_iCurBit r + 8 * (length cs + 1) \<rparr>)"
    using assms(1,2,5) k by (simp add: ReadChar_def ReadUBitLong_def stream_byte_def)
  show ?case
    using rd assms(6) k by (subst ReadString_loop.simps) auto
next
  case (Suc d)
  then have lt: "k < length cs" by simp
  have rd: "ReadChar (r\<lparr> r_iCurBit := r_iCurBit r + 8 * k \<rparr>)
      = (cs ! k, r\<lparr> r_iCurBit := r_iCurBit r + 8 * (k + 1) \<rparr>)"
    using assms(1,2,3) lt by (simp add: ReadChar_def ReadUBitLong_def stream_byte_def)
  have nz: "cs ! k \<noteq> 0" and nl: "\<not> (bLine \<and> cs ! k = 0x0A)"
    using assms(4) lt by auto
  have IH: "ReadString_loop (r\<lparr> r_iCurBit := r_iCurBit r + 8 * (k + 1) \<rparr>)
           (take (min (k + 1) (maxLen - 1)) cs @ drop (min (k + 1) (maxLen - 1)) pStr)
           maxLen bLine (min (k + 1) (maxLen - 1)) (maxLen - 1 < k + 1)
       = (r\<lparr> r_iCurBit := r_iCurBit r + 8 * (length cs + 1) \<rparr>,
          take (min (length cs) (maxLen - 1)) cs @ drop (min (length cs) (maxLen - 1)) pStr,
          min (length cs) (maxLen - 1), maxLen - 1 < length cs)"
    using Suc.hyps(1) [of "k + 1"] Suc.hyps(2) lt by simp
  show ?case
  proof (cases "k < maxLen - 1")
    case True
    then have mk: "min k (maxLen - 1) = k" "min (k + 1) (maxLen - 1) = k + 1"
      and small: "\<not> maxLen - 1 < k" "\<not> maxLen - 1 < k + 1" by simp_all
    have cmp: "int k < int maxLen - 1" using True by simp
    have klen: "k < length pStr" using True assms(8) by simp
    have upd: "(take k cs @ drop k pStr)[k := cs ! k] = take (k + 1) cs @ drop (k + 1) pStr"
    proof -
      have d: "drop k pStr = pStr ! k # drop (k + 1) pStr"
        using klen by (simp add: Cons_nth_drop_Suc)
      have "(take k cs @ drop k pStr)[k := cs ! k] = take k cs @ (drop k pStr)[0 := cs ! k]"
        using lt by (simp add: list_update_append)
      also have "\<dots> = take k cs @ cs ! k # drop (k + 1) pStr"
        by (simp only: d list_update_code)
      also have "\<dots> = take (k + 1) cs @ drop (k + 1) pStr"
        using lt by (simp add: take_Suc_conv_app_nth)
      finally show ?thesis .
    qed
    show ?thesis
      unfolding mk
      apply (subst ReadString_loop.simps)
      using rd nz nl cmp upd IH small unfolding mk
      by (auto simp add: Let_def)
  next
    case False
    then have mk: "min k (maxLen - 1) = maxLen - 1" "min (k + 1) (maxLen - 1) = maxLen - 1"
      and big: "maxLen - 1 < k + 1" by simp_all
    have cmp: "\<not> int (maxLen - 1) < int maxLen - 1" using assms(7) by simp
    show ?thesis
      unfolding mk
      apply (subst ReadString_loop.simps)
      using rd nz nl cmp IH big unfolding mk
      by (auto simp add: Let_def)
  qed
qed


text \<open>Claim C7, as amended.  For a destination of at least \<open>maxLen \<ge> 1\<close> characters,
  \<open>ReadString\<close> always leaves a zero at the returned length, which is below \<open>maxLen\<close>,
  and a true result implies that the stream did not overflow.  When the stream holds the
  characters \<open>cs\<close> (none zero, none a newline if \<open>bLine\<close>) followed by a terminator, all
  inside the valid data, the destination receives the first \<open>maxLen - 1\<close> characters of
  \<open>cs\<close> and a zero, the cursor ends behind the terminator, the overflow flag stays clear,
  and the result is true exactly when \<open>cs\<close> has at most \<open>maxLen - 1\<close> characters.\<close>

theorem C7_ReadString:
  fixes cs :: "byte list"
  assumes "1 \<le> maxLen" and "maxLen \<le> length pStr"
  shows "(case ReadString r pStr maxLen bLine of
            (ok, pStr', n, r') \<Rightarrow>
              n < maxLen \<and> pStr' ! n = 0 \<and> length pStr' = length pStr \<and>
              (ok \<longrightarrow> \<not> r_bOverflow r')) \<and>
         (\<not> r_bOverflow r \<and> r_iCurBit r + 8 * (length cs + 1) \<le> r_nDataBits r \<and>
          (\<forall>k < length cs. ucast (stream_byte r k) = cs ! k) \<and>
          (\<forall>c \<in> set cs. c \<noteq> 0 \<and> (bLine \<longrightarrow> c \<noteq> 0x0A)) \<and>
          ((ucast (stream_byte r (length cs)) :: byte) = 0 \<or>
           bLine \<and> (ucast (stream_byte r (length cs)) :: byte) = 0x0A) \<longrightarrow>
            ReadString r pStr maxLen bLine =
              (length cs \<le> maxLen - 1,
               take (min (length cs) (maxLen - 1)) cs @ 0 # drop (Suc (min (length cs) (maxLen - 1))) pStr,
               min (length cs) (maxLen - 1),
               r\<lparr> r_iCurBit := r_iCurBit r + 8 * (length cs + 1) \<rparr>))"
proof (intro conjI impI)
  obtain r' pStr' n b where loop: "ReadString_loop r pStr maxLen bLine 0 False = (r', pStr', n, b)"
    by (metis prod_cases4)
  have "n < maxLen \<and> length pStr' = length pStr"
    using ReadString_loop_bounds [where iChar = 0 and maxLen = maxLen and r = r and pStr = pStr
          and bLine = bLine and bTooSmall = False] assms(1) loop by simp
  then show "case ReadString r pStr maxLen bLine of
            (ok, pStr', n, r') \<Rightarrow>
              n < maxLen \<and> pStr' ! n = 0 \<and> length pStr' = length pStr \<and>
              (ok \<longrightarrow> \<not> r_bOverflow r')"
    using assms(2) by (simp add: ReadString_def loop)
next
  assume a: "\<not> r_bOverflow r \<and> r_iCurBit r + 8 * (length cs + 1) \<le> r_nDataBits r \<and>
          (\<forall>k < length cs. ucast (stream_byte r k) = cs ! k) \<and>
          (\<forall>c \<in> set cs. c \<noteq> 0 \<and> (bLine \<longrightarrow> c \<noteq> 0x0A)) \<and>
          ((ucast (stream_byte r (length cs)) :: byte) = 0 \<or>
           bLine \<and> (ucast (stream_byte r (length cs)) :: byte) = 0x0A)"
  define n where "n = min (length cs) (maxLen - 1)"
  have loop: "ReadString_loop r pStr maxLen bLine 0 False
       = (r\<lparr> r_iCurBit := r_iCurBit r + 8 * (length cs + 1) \<rparr>,
          take n cs @ drop n pStr, n, maxLen - 1 < length cs)"
    using ReadString_loop_in_range [where r = r and cs = cs and bLine = bLine
          and t = "ucast (stream_byte r (length cs))" and maxLen = maxLen and pStr = pStr and k = 0]
      a assms by (simp add: n_def)
  have nlen: "n \<le> length cs" "n < length pStr" using assms by (simp_all add: n_def)
  have d: "drop n pStr = pStr ! n # drop (Suc n) pStr"
    using nlen(2) by (simp add: Cons_nth_drop_Suc)
  have "(take n cs @ drop n pStr)[n := 0] = take n cs @ (drop n pStr)[0 := 0]"
    using nlen(1) by (simp add: list_update_append)
  also have "\<dots> = take n cs @ 0 # drop (Suc n) pStr"
    by (simp only: d list_update_code)
  finally have nul: "(take n cs @ drop n pStr)[n := 0] = take n cs @ 0 # drop (Suc n) pStr" .
  show "ReadString r pStr maxLen bLine =
              (length cs \<le> maxLen - 1,
               take (min (length cs) (maxLen - 1)) cs @ 0 # drop (Suc (min (length cs) (maxLen - 1))) pStr,
               min (length cs) (maxLen - 1),
               r\<lparr> r_iCurBit := r_iCurBit r + 8 * (length cs + 1) \<rparr>)"
    unfolding n_def [symmetric] using a nul by (auto simp add: ReadString_def loop)
qed

text \<open>Claim C7 as stated fails on an unterminated stream: the four characters fit the
  eight-character destination, \<open>bTooSmall\<close> stays false, and the result is false all the
  same, because the result is \<open>!IsOverflowed() && !bTooSmall\<close>.\<close>

theorem C7_overflow_counterexample:
  "fst (ReadString R_noterm (replicate 8 0xEE) 8 False) = False \<and>
   snd (snd (snd (ReadString_loop R_noterm (replicate 8 0xEE) 8 False 0 False))) = False"
  by code_simp

lemma R_abc_bytes: "\<forall>k \<in> {..<3}. (ucast (stream_byte R_abc k) :: byte) = [0x61, 0x62, 0x63] ! k"
  by code_simp

text \<open>Exactly \<open>maxLen - 1 = 3\<close> characters and a terminator: no truncation.\<close>

theorem C7_ReadString_witness:
  "ReadString R_abc (replicate 4 0xEE) 4 False = (True, [0x61, 0x62, 0x63, 0], 3, R_abc\<lparr> r_iCurBit := 32 \<rparr>)"
proof -
  have h: "1 \<le> (4::nat)" "4 \<le> length (replicate 4 (0xEE :: byte))" by simp_all
  have r: "\<not> r_bOverflow R_abc" "r_iCurBit R_abc = 0" "r_nDataBits R_abc = 64"
    by (simp_all add: R_abc_def StartReading_def)
  have bs: "\<forall>k < length [0x61, 0x62, 0x63 :: byte]. ucast (stream_byte R_abc k) = [0x61, 0x62, 0x63 :: byte] ! k"
    using R_abc_bytes by simp
  have t: "(ucast (stream_byte R_abc (length [0x61, 0x62, 0x63 :: byte])) :: byte) = 0"
    by code_simp
  show ?thesis
    using C7_ReadString [OF h, of R_abc False "[0x61, 0x62, 0x63]"] r bs t by simp
qed

section \<open>Bulk writes and the capacity\<close>

lemma WriteUBitLong_ready:
  "\<not> w_bOverflow w \<Longrightarrow> w_iCurBit w + k \<le> w_nDataBits w \<Longrightarrow>
   \<not> w_bOverflow (WriteUBitLong w v k) \<and> w_iCurBit (WriteUBitLong w v k) = w_iCurBit w + k \<and>
   w_nDataBits (WriteUBitLong w v k) = w_nDataBits w"
  by (simp add: WriteUBitLong_def)

lemma WriteBits_align_ready:
  "\<not> w_bOverflow w \<Longrightarrow> w_iCurBit w + n \<le> w_nDataBits w \<Longrightarrow>
   ready_for w n (WriteBits_align addr pIn w pOut n)"
proof (induction addr pIn w pOut n rule: WriteBits_align.induct)
  case (1 addr pIn w pOut nBitsLeft)
  show ?case
  proof (cases "(addr + pOut) mod 4 \<noteq> 0 \<and> 8 \<le> nBitsLeft")
    case True
    let ?w = "WriteUBitLong w (ucast (pIn ! pOut)) 8"
    have st: "\<not> w_bOverflow ?w \<and> w_iCurBit ?w = w_iCurBit w + 8 \<and> w_nDataBits ?w = w_nDataBits w"
      using WriteUBitLong_ready [of w 8] "1.prems" True by simp
    then have "ready_for ?w (nBitsLeft - 8) (WriteBits_align addr pIn ?w (pOut + 1) (nBitsLeft - 8))"
      using "1.IH" [OF True] "1.prems" True by simp
    then show ?thesis
      using True st by (subst WriteBits_align.simps) (auto simp add: ready_for_def)
  next
    case False
    then show ?thesis
      using "1.prems" by (subst WriteBits_align.simps) (auto simp add: ready_for_def)
  qed
qed

lemma WriteBits_bytes_ready:
  "\<not> w_bOverflow w \<Longrightarrow> w_iCurBit w + n \<le> w_nDataBits w \<Longrightarrow>
   ready_for w n (WriteBits_bytes pIn w pOut n)"
proof (induction pIn w pOut n rule: WriteBits_bytes.induct)
  case (1 pIn w pOut nBitsLeft)
  show ?case
  proof (cases "8 \<le> nBitsLeft")
    case True
    let ?w = "WriteUBitLong w (ucast (pIn ! pOut)) 8"
    have st: "\<not> w_bOverflow ?w \<and> w_iCurBit ?w = w_iCurBit w + 8 \<and> w_nDataBits ?w = w_nDataBits w"
      using WriteUBitLong_ready [of w 8] "1.prems" True by simp
    then have "ready_for ?w (nBitsLeft - 8) (WriteBits_bytes pIn ?w (pOut + 1) (nBitsLeft - 8))"
      using "1.IH" [OF True] "1.prems" True by simp
    then show ?thesis
      using True st by (subst WriteBits_bytes.simps) (auto simp add: ready_for_def)
  next
    case False
    then show ?thesis
      using "1.prems" by (subst WriteBits_bytes.simps) (auto simp add: ready_for_def)
  qed
qed

lemma WriteBits_words_ready:
  "\<not> w_bOverflow w \<Longrightarrow> ready_for w n (WriteBits_words pIn iBitsRight w pData pOut n)"
proof (induction pIn iBitsRight w pData pOut n rule: WriteBits_words.induct)
  case (1 pIn iBitsRight w pData pOut nBitsLeft)
  show ?case
  proof (cases "32 \<le> nBitsLeft")
    case True
    obtain m where step: "WriteBits_words pIn iBitsRight w pData pOut nBitsLeft
        = WriteBits_words pIn iBitsRight (w\<lparr> w_pData := m, w_iCurBit := w_iCurBit w + 32 \<rparr>)
            (pData + 1) (pOut + 4) (nBitsLeft - 32)"
      and IH: "ready_for (w\<lparr> w_pData := m, w_iCurBit := w_iCurBit w + 32 \<rparr>) (nBitsLeft - 32)
         (WriteBits_words pIn iBitsRight (w\<lparr> w_pData := m, w_iCurBit := w_iCurBit w + 32 \<rparr>)
            (pData + 1) (pOut + 4) (nBitsLeft - 32))"
      using True "1.IH" [OF True refl refl refl refl refl refl refl refl] "1.prems"
      by (subst (asm) WriteBits_words.simps) (simp add: Let_def)
    show ?thesis
      unfolding step using IH True by (auto simp add: ready_for_def)
  next
    case False
    then show ?thesis
      using "1.prems" by (subst WriteBits_words.simps) (auto simp add: ready_for_def)
  qed
qed


lemma WriteBits_fits:
  assumes "\<not> w_bOverflow w" and "w_iCurBit w + nBits \<le> w_nDataBits w"
  shows "fst (WriteBits isPC addr pIn w nBits) \<and>
         \<not> w_bOverflow (snd (WriteBits isPC addr pIn w nBits)) \<and>
         w_iCurBit (snd (WriteBits isPC addr pIn w nBits)) = w_iCurBit w + nBits \<and>
         w_nDataBits (snd (WriteBits isPC addr pIn w nBits)) = w_nDataBits w"
proof -
  obtain w1 p1 n1 where a: "WriteBits_align addr pIn w 0 nBits = (w1, p1, n1)"
    by (metis prod_cases3)
  have r1: "\<not> w_bOverflow w1" "w_iCurBit w1 + n1 = w_iCurBit w + nBits" "w_nDataBits w1 = w_nDataBits w"
    using WriteBits_align_ready [OF assms, of addr pIn 0] by (simp_all add: a ready_for_def)
  define s2 where "s2 = (if isPC \<and> 32 \<le> n1 \<and> w_iCurBit w1 mod 8 = 0 then
                  (let numbytes = n1 div 8; numbits = numbytes * 8
                   in (w1\<lparr> w_pData := Q_memcpy (w_pData w1) (w_iCurBit w1 div 8) pIn p1 numbytes,
                          w_iCurBit := w_iCurBit w1 + numbits \<rparr>,
                       p1 + numbytes, n1 - numbits))
                else (w1, p1, n1))"
  obtain w2 p2 n2 where b: "s2 = (w2, p2, n2)" by (metis prod_cases3)
  have "n1 div 8 * 8 \<le> n1" by simp
  then have r2: "\<not> w_bOverflow w2" "w_iCurBit w2 + n2 = w_iCurBit w + nBits" "w_nDataBits w2 = w_nDataBits w"
    using r1 b unfolding s2_def by (auto simp add: Let_def split: if_splits)
  define s3 where "s3 = (if isPC \<and> 32 \<le> n2
                then WriteBits_words pIn (w_iCurBit w2 mod 32) w2 (w_iCurBit w2 div 32) p2 n2
                else (w2, p2, n2))"
  obtain w3 p3 n3 where c: "s3 = (w3, p3, n3)" by (metis prod_cases3)
  have "ready_for w2 n2 s3"
    using WriteBits_words_ready [OF r2(1), of n2 pIn "w_iCurBit w2 mod 32" "w_iCurBit w2 div 32" p2] r2(1)
    by (simp add: s3_def ready_for_def)
  then have r3: "\<not> w_bOverflow w3" "w_iCurBit w3 + n3 = w_iCurBit w + nBits" "w_nDataBits w3 = w_nDataBits w"
    using r2 by (simp_all add: c ready_for_def)
  obtain w4 p4 n4 where d: "WriteBits_bytes pIn w3 p3 n3 = (w4, p4, n4)" by (metis prod_cases3)
  have "w_iCurBit w3 + n3 \<le> w_nDataBits w3" using r3 assms(2) by simp
  then have "ready_for w3 n3 (w4, p4, n4)"
    using WriteBits_bytes_ready [OF r3(1), of n3 pIn p3] by (simp add: d)
  then have r4: "\<not> w_bOverflow w4" "w_iCurBit w4 + n4 = w_iCurBit w + nBits" "w_nDataBits w4 = w_nDataBits w"
    using r3 by (simp_all add: ready_for_def)
  define w5 where "w5 = (if n4 \<noteq> 0 then WriteUBitLong w4 (ucast (pIn ! p4)) n4 else w4)"
  have "w_iCurBit w4 + n4 \<le> w_nDataBits w4" using r4 assms(2) by simp
  then have r5: "\<not> w_bOverflow w5" "w_iCurBit w5 = w_iCurBit w + nBits" "w_nDataBits w5 = w_nDataBits w"
    using WriteUBitLong_ready [OF r4(1), of n4 "ucast (pIn ! p4)"] r4 by (auto simp add: w5_def)
  have "WriteBits isPC addr pIn w nBits = (\<not> w_bOverflow w5, w5)"
    using assms(2) unfolding WriteBits_def a Let_def prod.case s2_def [symmetric, unfolded Let_def] b
      s3_def [symmetric] c d w5_def [symmetric]
    by simp
  then show ?thesis using r5 by simp
qed

lemma WriteBits_full:
  "w_iCurBit w + nBits > w_nDataBits w \<Longrightarrow>
   WriteBits isPC addr pIn w nBits = (False, w\<lparr> w_bOverflow := True \<rparr>)"
  by (simp add: WriteBits_def)

text \<open>Claim C5.  A \<open>WriteBits\<close> that brings a writer in the Ready state exactly to its
  capacity succeeds and leaves the overflow flag clear, on every path through the
  function.  Any further write of at least one bit, by \<open>WriteBits\<close> or \<open>WriteUBitLong\<close>,
  returns failure and changes nothing but the overflow flag, which it sets: no byte of
  memory, inside or beyond the capacity, and no bit written before is touched.\<close>

theorem C5_overflow_boundary:
  assumes "\<not> w_bOverflow w" and "w_iCurBit w + nBits = w_nDataBits w"
  shows "(let (ok, w') = WriteBits isPC addr pIn w nBits in
            ok \<and> \<not> w_bOverflow w' \<and> w_iCurBit w' = w_nDataBits w \<and> w_nDataBits w' = w_nDataBits w \<and>
            (\<forall>pIn' addr' k. 1 \<le> k \<longrightarrow>
               WriteBits isPC addr' pIn' w' k = (False, w'\<lparr> w_bOverflow := True \<rparr>)) \<and>
            (\<forall>v k. 1 \<le> k \<longrightarrow> WriteUBitLong w' v k = w'\<lparr> w_bOverflow := True \<rparr>))"
proof -
  obtain ok w' where res: "WriteBits isPC addr pIn w nBits = (ok, w')" by force
  have fit: "w_iCurBit w + nBits \<le> w_nDataBits w" using assms(2) by simp
  have st: "ok" "\<not> w_bOverflow w'" "w_iCurBit w' = w_nDataBits w" "w_nDataBits w' = w_nDataBits w"
    using WriteBits_fits [OF assms(1) fit, of isPC addr pIn] assms(2) by (simp_all add: res)
  have "WriteBits isPC addr' pIn' w' k = (False, w'\<lparr> w_bOverflow := True \<rparr>)" if "1 \<le> k" for pIn' addr' k
    using that st by (intro WriteBits_full) simp
  moreover have "WriteUBitLong w' v k = w'\<lparr> w_bOverflow := True \<rparr>" if "1 \<le> k" for v k
    using that st by (simp add: WriteUBitLong_def)
  ultimately show ?thesis using st by (simp add: res)
qed

text \<open>Eight bytes into the eight-byte writer, then one bit more.\<close>

theorem C5_overflow_boundary_witness:
  "(let (ok, w') = WriteBits True 0 [1, 2, 3, 4, 5, 6, 7, 8] W0 64 in
      ok \<and> \<not> w_bOverflow w' \<and> w_iCurBit w' = 64 \<and>
      w_pData w' = [1, 2, 3, 4, 5, 6, 7, 8] \<and>
      WriteBits True 0 [0xFF] w' 1 = (False, w'\<lparr> w_bOverflow := True \<rparr>))"
proof -
  have h: "\<not> w_bOverflow W0" "w_iCurBit W0 + 64 = w_nDataBits W0"
    by (simp_all add: W0_def StartWriting_def)
  have d: "w_pData (snd (WriteBits True 0 [1, 2, 3, 4, 5, 6, 7, 8] W0 64)) = [1, 2, 3, 4, 5, 6, 7, 8]"
    by code_simp
  have n: "w_nDataBits W0 = 64" by (simp add: W0_def StartWriting_def)
  show ?thesis
    using C5_overflow_boundary [OF h, of True 0 "[1, 2, 3, 4, 5, 6, 7, 8]"] d n
    by (auto simp add: Let_def split: prod.splits)
qed

section \<open>Quantized coordinates\<close>

lemma abs_c_int: "\<bar>c_int x\<bar> = \<lfloor>\<bar>x\<bar>\<rfloor>"
proof (cases "0 \<le> x")
  case True
  then show ?thesis by (simp add: c_int_def)
next
  case False
  have a: "c_int x = - \<lfloor>- x\<rfloor>" using False by (simp add: c_int_def)
  have b: "\<bar>x\<bar> = - x" using False by simp
  have c: "0 \<le> \<lfloor>- x\<rfloor>" using False by simp
  show ?thesis unfolding a b using c by linarith
qed

lemma c_int_abs: "c_int \<bar>x\<bar> = \<lfloor>\<bar>x\<bar>\<rfloor>"
  by (simp add: c_int_def)

lemma and_31_mod: "0 \<le> t \<Longrightarrow> t AND 31 = t mod 32" for t :: int
proof -
  have "(31 :: int) = mask 5" by (simp add: mask_eq_exp_minus_1)
  then show ?thesis by (simp only: take_bit_eq_mask [symmetric] take_bit_eq_mod) simp
qed

lemma floor_scaled_div: "\<lfloor>x * 32\<rfloor> div 32 = \<lfloor>x\<rfloor>" for x :: rat
proof -
  have "of_int \<lfloor>x\<rfloor> \<le> x" "x < of_int \<lfloor>x\<rfloor> + 1" by linarith+
  then have "of_int (32 * \<lfloor>x\<rfloor>) \<le> x * 32" "x * 32 < of_int (32 * \<lfloor>x\<rfloor> + 32)"
    by simp_all
  then have "32 * \<lfloor>x\<rfloor> \<le> \<lfloor>x * 32\<rfloor>" "\<lfloor>x * 32\<rfloor> < 32 * \<lfloor>x\<rfloor> + 32"
    by (simp_all only: le_floor_iff floor_less_iff)
  then show ?thesis by presburger
qed

lemma c_int_trunc_err: "\<bar>of_int (c_int x) - x\<bar> < 1"
proof (cases "0 \<le> x")
  case True
  have a: "c_int x = \<lfloor>x\<rfloor>" using True by (simp add: c_int_def)
  have "of_int \<lfloor>x\<rfloor> \<le> x" "x < of_int \<lfloor>x\<rfloor> + 1" by linarith+
  then show ?thesis unfolding a by linarith
next
  case False
  have a: "c_int x = - \<lfloor>- x\<rfloor>" using False by (simp add: c_int_def)
  have "of_int \<lfloor>- x\<rfloor> \<le> - x" "- x < of_int \<lfloor>- x\<rfloor> + 1" by linarith+
  then show ?thesis unfolding a by linarith
qed


lemma WriteUBitLong_fits:
  "\<not> w_bOverflow w \<Longrightarrow> w_iCurBit w + n \<le> w_nDataBits w \<Longrightarrow>
   WriteUBitLong w v n = w\<lparr> w_pData := store_bits (w_pData w) (w_iCurBit w) n v,
                              w_iCurBit := w_iCurBit w + n \<rparr>"
  by (simp add: WriteUBitLong_def)

lemma ReadUBitLong_fits:
  "\<not> r_bOverflow r \<Longrightarrow> r_iCurBit r + n \<le> r_nDataBits r \<Longrightarrow>
   ReadUBitLong r n = (load_bits (r_pData r) (r_iCurBit r) n, r\<lparr> r_iCurBit := r_iCurBit r + n \<rparr>)"
  by (simp add: ReadUBitLong_def)

lemma take_bit_1_of_bool: "take_bit (Suc 0) (if b then 1 else 0 :: uint32) = (if b then 1 else 0)"
  by simp

lemma WriteUBitLong_get_bit:
  assumes "\<not> w_bOverflow w" and "w_iCurBit w + n \<le> w_nDataBits w"
    and "w_nDataBits w \<le> 8 * length (w_pData w)"
  shows "\<not> w_bOverflow (WriteUBitLong w v n)"
    and "w_iCurBit (WriteUBitLong w v n) = w_iCurBit w + n"
    and "w_nDataBits (WriteUBitLong w v n) = w_nDataBits w"
    and "w_nDataBytes (WriteUBitLong w v n) = w_nDataBytes w"
    and "length (w_pData (WriteUBitLong w v n)) = length (w_pData w)"
    and "get_bit (w_pData (WriteUBitLong w v n)) j =
           (if w_iCurBit w \<le> j \<and> j < w_iCurBit w + n then bit v (j - w_iCurBit w)
            else get_bit (w_pData w) j)"
proof -
  have len: "w_iCurBit w + n \<le> 8 * length (w_pData w)" using assms(2,3) by simp
  show "\<not> w_bOverflow (WriteUBitLong w v n)" "w_iCurBit (WriteUBitLong w v n) = w_iCurBit w + n"
    "w_nDataBits (WriteUBitLong w v n) = w_nDataBits w"
    "w_nDataBytes (WriteUBitLong w v n) = w_nDataBytes w"
    "length (w_pData (WriteUBitLong w v n)) = length (w_pData w)"
    using assms(1,2) by (simp_all add: WriteUBitLong_fits length_store_bits)
  show "get_bit (w_pData (WriteUBitLong w v n)) j =
           (if w_iCurBit w \<le> j \<and> j < w_iCurBit w + n then bit v (j - w_iCurBit w)
            else get_bit (w_pData w) j)"
    using assms(1,2) get_store_bits [OF len] by (simp add: WriteUBitLong_fits)
qed

lemma load_bits_eqI:
  assumes "\<And>k. k < n \<Longrightarrow> k < 32 \<Longrightarrow> get_bit m (p + k) = bit v k"
  shows "load_bits m p n = take_bit n v"
  by (rule bit_word_eqI) (auto simp add: bit_load_bits bit_take_bit_iff assms)

lemma WriteUBitLong_zero:
  "\<not> w_bOverflow w \<Longrightarrow> w_iCurBit w \<le> w_nDataBits w \<Longrightarrow> WriteUBitLong w v 0 = w"
  by (simp add: WriteUBitLong_def)

lemma coord_wire:
  fixes I F :: uint32
  assumes "\<not> w_bOverflow w" and "w_iCurBit w + 22 \<le> w_nDataBits w"
    and "w_nDataBits w \<le> 8 * length (w_pData w)"
    and "hi \<or> hf" and "ni = (if hi then 14 else 0)" and "nf = (if hf then 5 else 0)"
    and "w' = (let w3 = WriteOneBit (WriteOneBit (WriteOneBit w hi) hf) sb;
                   w4 = (if hi then WriteUBitLong w3 I 14 else w3)
               in (if hf then WriteUBitLong w4 F 5 else w4))"
    and "r = StartReading (w_pData w') (w_nDataBytes w') (w_iCurBit w) (int (w_nDataBits w'))"
  shows "w_iCurBit w' = w_iCurBit w + 3 + ni + nf"
    and "ReadBitCoord r = ((if sb then - 1 else 1) *
            (of_int (sint (if hi then take_bit 14 I + 1 else 0))
               + of_int (sint (if hf then take_bit 5 F else 0)) * COORD_RESOLUTION),
          r\<lparr> r_iCurBit := w_iCurBit w + 3 + ni + nf \<rparr>)"
proof -
  let ?c = "w_iCurBit w"
  have n: "ni \<le> 14" "nf \<le> 5" using assms(5,6) by simp_all
  define w1 where "w1 = WriteUBitLong w (if hi then 1 else 0) 1"
  define w2 where "w2 = WriteUBitLong w1 (if hf then 1 else 0) 1"
  define w3 where "w3 = WriteUBitLong w2 (if sb then 1 else 0) 1"
  define w4 where "w4 = WriteUBitLong w3 I ni"
  note f1 = WriteUBitLong_get_bit [of w 1 "if hi then 1 else 0", folded w1_def]
  have s1: "\<not> w_bOverflow w1" "w_iCurBit w1 = ?c + 1" "w_nDataBits w1 = w_nDataBits w"
    "w_nDataBytes w1 = w_nDataBytes w" "length (w_pData w1) = length (w_pData w)"
    using f1(1-5) assms(1-3) by simp_all
  have g1: "get_bit (w_pData w1) j = (if j = ?c then hi else get_bit (w_pData w) j)" for j
    using f1(6) [of j] assms(1-3) by auto
  note f2 = WriteUBitLong_get_bit [of w1 1 "if hf then 1 else 0", folded w2_def]
  have s2: "\<not> w_bOverflow w2" "w_iCurBit w2 = ?c + 2" "w_nDataBits w2 = w_nDataBits w"
    "w_nDataBytes w2 = w_nDataBytes w" "length (w_pData w2) = length (w_pData w)"
    using f2(1-5) s1 assms(2,3) by simp_all
  have g2: "get_bit (w_pData w2) j = (if j = ?c + 1 then hf else get_bit (w_pData w1) j)" for j
    using f2(6) [of j] s1 assms(2,3) by auto
  note f3 = WriteUBitLong_get_bit [of w2 1 "if sb then 1 else 0", folded w3_def]
  have s3: "\<not> w_bOverflow w3" "w_iCurBit w3 = ?c + 3" "w_nDataBits w3 = w_nDataBits w"
    "w_nDataBytes w3 = w_nDataBytes w" "length (w_pData w3) = length (w_pData w)"
    using f3(1-5) s2 assms(2,3) by simp_all
  have g3: "get_bit (w_pData w3) j = (if j = ?c + 2 then sb else get_bit (w_pData w2) j)" for j
    using f3(6) [of j] s2 assms(2,3) by auto
  note f4 = WriteUBitLong_get_bit [of w3 ni I, folded w4_def]
  have s4: "\<not> w_bOverflow w4" "w_iCurBit w4 = ?c + 3 + ni" "w_nDataBits w4 = w_nDataBits w"
    "w_nDataBytes w4 = w_nDataBytes w" "length (w_pData w4) = length (w_pData w)"
    using f4(1-5) s3 assms(2,3) n by simp_all
  have g4: "get_bit (w_pData w4) j = (if ?c + 3 \<le> j \<and> j < ?c + 3 + ni then bit I (j - (?c + 3))
        else get_bit (w_pData w3) j)" for j
    using f4(6) [of j] s3 assms(2,3) n by auto
  have w4_if: "(if hi then WriteUBitLong w3 I 14 else w3) = w4"
    using WriteUBitLong_zero [of w3 I] s3 assms(2,5) by (simp add: w4_def)
  have "(if hf then WriteUBitLong w4 F 5 else w4) = WriteUBitLong w4 F nf"
    using WriteUBitLong_zero [of w4 F] s4 assms(2,6) n by simp
  then have w5: "w' = WriteUBitLong w4 F nf"
    unfolding assms(7) Let_def w4_if [unfolded w3_def w2_def w1_def WriteOneBit_def [symmetric]]
    by (simp add: w4_def w3_def w2_def w1_def WriteOneBit_def)
  note f5 = WriteUBitLong_get_bit [of w4 nf F, folded w5]
  have s5: "\<not> w_bOverflow w'" "w_iCurBit w' = ?c + 3 + ni + nf" "w_nDataBits w' = w_nDataBits w"
    "w_nDataBytes w' = w_nDataBytes w" "length (w_pData w') = length (w_pData w)"
    using f5(1-5) s4 assms(2,3) n by simp_all
  have g5: "get_bit (w_pData w') j = (if ?c + 3 + ni \<le> j \<and> j < ?c + 3 + ni + nf
        then bit F (j - (?c + 3 + ni)) else get_bit (w_pData w4) j)" for j
    using f5(6) [of j] s4 assms(2,3) n by auto
  show "w_iCurBit w' = w_iCurBit w + 3 + ni + nf" by (rule s5(2))
  let ?M = "w_pData w'"
  have b0: "load_bits ?M p 1 = (if hi then 1 else 0)" if "p = ?c" for p
    using load_bits_eqI [of 1 ?M p "if hi then 1 else 0"] that by (simp add: g5 g4 g3 g2 g1)
  have b1: "load_bits ?M p 1 = (if hf then 1 else 0)" if "p = ?c + 1" for p
    using load_bits_eqI [of 1 ?M p "if hf then 1 else 0"] that by (simp add: g5 g4 g3 g2 g1)
  have b2: "load_bits ?M p 1 = (if sb then 1 else 0)" if "p = ?c + 2" for p
    using load_bits_eqI [of 1 ?M p "if sb then 1 else 0"] that by (simp add: g5 g4 g3 g2 g1)
  have b3: "load_bits ?M p 14 = take_bit 14 I" if "p = ?c + 3" and hi for p
    using that assms(5) by (intro load_bits_eqI) (simp add: g5 g4 g3 g2 g1)
  have b4: "load_bits ?M p 5 = take_bit 5 F" if "p = ?c + 3 + ni" and hf for p
    using that assms(6) by (intro load_bits_eqI) (simp add: g5 g4 g3 g2 g1)
  have r: "r = \<lparr> r_pData = ?M, r_nDataBytes = w_nDataBytes w, r_nDataBits = w_nDataBits w,
       r_iCurBit = ?c, r_bOverflow = False \<rparr>"
    by (simp add: assms(8) s5 StartReading_def)
  show "ReadBitCoord r = ((if sb then - 1 else 1) *
            (of_int (sint (if hi then take_bit 14 I + 1 else 0))
               + of_int (sint (if hf then take_bit 5 F else 0)) * COORD_RESOLUTION),
          r\<lparr> r_iCurBit := w_iCurBit w + 3 + ni + nf \<rparr>)"
  proof (cases hi)
    case True
    show ?thesis
    proof (cases hf)
      case hf: True
      show ?thesis
        unfolding r ReadBitCoord_def ReadOneBit_def COORD_INTEGER_BITS_def COORD_FRACTIONAL_BITS_def
        using assms(2,5,6) True hf
        by (simp add: ReadUBitLong_fits Let_def b0 b1 b2 b3 b4 del: load_bits.simps One_nat_def)
    next
      case hf: False
      show ?thesis
        unfolding r ReadBitCoord_def ReadOneBit_def COORD_INTEGER_BITS_def COORD_FRACTIONAL_BITS_def
        using assms(2,5,6) True hf
        by (simp add: ReadUBitLong_fits Let_def b0 b1 b2 b3 del: load_bits.simps One_nat_def)
    qed
  next
    case False
    then have hf: hf using assms(4) by simp
    show ?thesis
      unfolding r ReadBitCoord_def ReadOneBit_def COORD_INTEGER_BITS_def COORD_FRACTIONAL_BITS_def
      using assms(2,5,6) False hf
      by (simp add: ReadUBitLong_fits Let_def b0 b1 b2 b4 del: load_bits.simps One_nat_def)
  qed
qed

lemma coord_wire_zero:
  assumes "\<not> w_bOverflow w" and "w_iCurBit w + 22 \<le> w_nDataBits w"
    and "w_nDataBits w \<le> 8 * length (w_pData w)"
    and "w' = WriteOneBit (WriteOneBit w False) False"
    and "r = StartReading (w_pData w') (w_nDataBytes w') (w_iCurBit w) (int (w_nDataBits w'))"
  shows "w_iCurBit w' = w_iCurBit w + 2"
    and "ReadBitCoord r = (0, r\<lparr> r_iCurBit := w_iCurBit w + 2 \<rparr>)"
proof -
  let ?c = "w_iCurBit w"
  define w1 where "w1 = WriteUBitLong w 0 1"
  have w2: "w' = WriteUBitLong w1 0 1"
    by (simp add: assms(4) WriteOneBit_def w1_def)
  note f1 = WriteUBitLong_get_bit [of w 1 0, folded w1_def]
  have s1: "\<not> w_bOverflow w1" "w_iCurBit w1 = ?c + 1" "w_nDataBits w1 = w_nDataBits w"
    "w_nDataBytes w1 = w_nDataBytes w" "length (w_pData w1) = length (w_pData w)"
    using f1(1-5) assms(1-3) by simp_all
  have g1: "get_bit (w_pData w1) j = (if j = ?c then False else get_bit (w_pData w) j)" for j
    using f1(6) [of j] assms(1-3) by auto
  note f2 = WriteUBitLong_get_bit [of w1 1 0, folded w2]
  have s2: "\<not> w_bOverflow w'" "w_iCurBit w' = ?c + 2" "w_nDataBits w' = w_nDataBits w"
    "w_nDataBytes w' = w_nDataBytes w" "length (w_pData w') = length (w_pData w)"
    using f2(1-5) s1 assms(2,3) by simp_all
  have g2: "get_bit (w_pData w') j = (if j = ?c + 1 then False else get_bit (w_pData w1) j)" for j
    using f2(6) [of j] s1 assms(2,3) by auto
  show "w_iCurBit w' = w_iCurBit w + 2" by (rule s2(2))
  let ?M = "w_pData w'"
  have b0: "load_bits ?M p 1 = 0" if "p = ?c" for p
    using load_bits_eqI [of 1 ?M p 0] that by (simp add: g2 g1)
  have b1: "load_bits ?M p 1 = 0" if "p = ?c + 1" for p
    using load_bits_eqI [of 1 ?M p 0] that by (simp add: g2 g1)
  have r: "r = \<lparr> r_pData = ?M, r_nDataBytes = w_nDataBytes w, r_nDataBits = w_nDataBits w,
       r_iCurBit = ?c, r_bOverflow = False \<rparr>"
    by (simp add: assms(5) s2 StartReading_def)
  show "ReadBitCoord r = (0, r\<lparr> r_iCurBit := w_iCurBit w + 2 \<rparr>)"
    unfolding r ReadBitCoord_def ReadOneBit_def
    using assms(2)
    by (simp add: ReadUBitLong_fits Let_def b0 b1 del: load_bits.simps One_nat_def)
qed


lemma take_bit_word_of_small:
  "0 \<le> x \<Longrightarrow> x < 2 ^ n \<Longrightarrow> take_bit n (word_of_int x :: uint32) = word_of_int x"
proof -
  assume a: "0 \<le> x" "x < 2 ^ n"
  have e: "take_bit n x = x"
    using a by (intro take_bit_int_eq_self)
  have "bit x k \<Longrightarrow> k < n" for k
    by (metis e bit_take_bit_iff)
  then show ?thesis
    by (intro bit_word_eqI) (auto simp add: bit_take_bit_iff bit_word_of_int_iff)
qed

lemma int_field:
  "1 \<le> iv \<Longrightarrow> iv \<le> 16384 \<Longrightarrow> sint (take_bit 14 (word_of_int (iv - 1) :: uint32) + 1) = iv"
proof -
  assume a: "1 \<le> iv" "iv \<le> 16384"
  have "take_bit 14 (word_of_int (iv - 1) :: uint32) = word_of_int (iv - 1)"
    using a by (intro take_bit_word_of_small) simp_all
  then have "take_bit 14 (word_of_int (iv - 1) :: uint32) + 1 = word_of_int iv"
    by simp
  moreover have "signed_take_bit 31 iv = iv"
    using a by (intro signed_take_bit_int_eq_self) simp_all
  ultimately show ?thesis by (simp add: sint_sbintrunc')
qed

lemma frac_field:
  "0 \<le> fv \<Longrightarrow> fv < 32 \<Longrightarrow> sint (take_bit 5 (word_of_int fv :: uint32)) = fv"
proof -
  assume a: "0 \<le> fv" "fv < 32"
  have "take_bit 5 (word_of_int fv :: uint32) = word_of_int fv"
    using a by (intro take_bit_word_of_small) simp_all
  moreover have "signed_take_bit 31 fv = fv"
    using a by (intro signed_take_bit_int_eq_self) simp_all
  ultimately show ?thesis by (simp add: sint_sbintrunc')
qed

lemma coord_roundtrip_value:
  assumes "\<bar>f\<bar> < 16385"
    and "\<not> w_bOverflow w" and "w_iCurBit w + 22 \<le> w_nDataBits w"
    and "w_nDataBits w \<le> 8 * length (w_pData w)"
    and "w' = WriteBitCoord w f"
    and "r = StartReading (w_pData w') (w_nDataBytes w') (w_iCurBit w) (int (w_nDataBits w'))"
  shows "ReadBitCoord r = (of_int (c_int (f * 32)) / 32, r\<lparr> r_iCurBit := w_iCurBit w' \<rparr>)"
proof -
  define T where "T = \<lfloor>\<bar>f\<bar> * 32\<rfloor>"
  define iv where "iv = T div 32"
  define fv where "fv = T mod 32"
  define sb where "sb = (f \<le> - COORD_RESOLUTION)"
  have T0: "0 \<le> T" by (simp add: T_def)
  have iv_floor: "iv = \<lfloor>\<bar>f\<bar>\<rfloor>" by (simp add: iv_def T_def floor_scaled_div)
  have iv: "0 \<le> iv" "iv \<le> 16384"
  proof -
    show "0 \<le> iv" by (simp add: iv_floor)
    have "\<lfloor>\<bar>f\<bar>\<rfloor> < 16385" using assms(1) by (simp add: floor_less_iff)
    then show "iv \<le> 16384" by (simp add: iv_floor)
  qed
  have fv: "0 \<le> fv" "fv < 32" by (simp_all add: fv_def)
  have Tsplit: "T = 32 * iv + fv" by (simp add: iv_def fv_def)
  have intVal: "c_int \<bar>f\<bar> = iv" by (simp add: c_int_abs iv_floor)
  have "\<bar>c_int (f * 32)\<bar> = T" by (simp add: abs_c_int T_def abs_mult)
  then have fractVal: "\<bar>c_int (f * of_int COORD_DENOMINATOR)\<bar> AND (COORD_DENOMINATOR - 1) = fv"
    using T0 by (simp add: COORD_DENOMINATOR_def COORD_FRACTIONAL_BITS_def and_31_mod fv_def)
  have res: "COORD_RESOLUTION = 1 / 32"
    by (simp add: COORD_RESOLUTION_def COORD_DENOMINATOR_def COORD_FRACTIONAL_BITS_def)
  have wbc: "WriteBitCoord w f =
      (let w2 = WriteOneBit (WriteOneBit w (iv \<noteq> 0)) (fv \<noteq> 0) in
       if iv \<noteq> 0 \<or> fv \<noteq> 0 then
         (let w3 = WriteOneBit w2 sb;
              w4 = (if iv \<noteq> 0 then WriteUBitLong w3 (word_of_int (iv - 1)) 14 else w3)
          in (if fv \<noteq> 0 then WriteUBitLong w4 (word_of_int fv) 5 else w4))
       else w2)"
    unfolding WriteBitCoord_def intVal fractVal sb_def [symmetric]
      COORD_INTEGER_BITS_def COORD_FRACTIONAL_BITS_def Let_def ..
  show ?thesis
  proof (cases "iv \<noteq> 0 \<or> fv \<noteq> 0")
    case False
    then have z: "iv = 0" "fv = 0" by simp_all
    then have "T = 0" using Tsplit by simp
    then have "\<bar>c_int (f * 32)\<bar> = 0" using \<open>\<bar>c_int (f * 32)\<bar> = T\<close> by simp
    then have v: "c_int (f * 32) = 0" by simp
    have w': "w' = WriteOneBit (WriteOneBit w False) False"
      unfolding assms(5) wbc using z by simp
    show ?thesis
      using coord_wire_zero [OF assms(2,3,4) w' assms(6)] v by simp
  next
    case True
    define ni :: nat where "ni = (if iv \<noteq> 0 then 14 else 0)"
    define nf :: nat where "nf = (if fv \<noteq> 0 then 5 else 0)"
    have w': "w' = (let w3 = WriteOneBit (WriteOneBit (WriteOneBit w (iv \<noteq> 0)) (fv \<noteq> 0)) sb;
                   w4 = (if iv \<noteq> 0 then WriteUBitLong w3 (word_of_int (iv - 1)) 14 else w3)
               in (if fv \<noteq> 0 then WriteUBitLong w4 (word_of_int fv) 5 else w4))"
      unfolding assms(5) wbc using True by (simp add: Let_def)
    note wire = coord_wire [OF assms(2,3,4) True ni_def nf_def w' assms(6)]
    have i: "of_int (sint (if iv \<noteq> 0 then take_bit 14 (word_of_int (iv - 1) :: uint32) + 1 else 0))
        = (of_int iv :: rat)"
      using int_field [of iv] iv by (cases "iv = 0") simp_all
    have fr: "of_int (sint (if fv \<noteq> 0 then take_bit 5 (word_of_int fv :: uint32) else 0))
        = (of_int fv :: rat)"
      using frac_field [of fv] fv by (cases "fv = 0") simp_all
    have mag: "(of_int iv :: rat) + of_int fv * COORD_RESOLUTION = of_int T / 32"
      by (simp add: res Tsplit)
    have Tpos: "0 < T" using True Tsplit iv fv by auto
    have sgn: "(if sb then - 1 else 1) * (of_int T / 32 :: rat) = of_int (c_int (f * 32)) / 32"
    proof (cases "0 \<le> f")
      case pos: True
      then have "\<not> sb" by (simp add: sb_def res)
      moreover have "c_int (f * 32) = T" using pos by (simp add: c_int_def T_def)
      ultimately show ?thesis by simp
    next
      case neg: False
      then have c: "c_int (f * 32) = - T" by (simp add: c_int_def T_def)
      have "1 \<le> \<bar>f\<bar> * 32" using Tpos by (simp add: T_def)
      then have "sb" using neg by (simp add: sb_def res)
      then show ?thesis using c by simp
    qed
    show ?thesis
      using wire(2) unfolding i fr mag sgn wire(1) [symmetric] .
  qed
qed


lemma scaled_lt: "x * 32 < 1 \<Longrightarrow> x \<le> 1 / 32" for x :: rat
  by (simp add: field_simps)

text \<open>Claim C9.  For every coordinate \<open>f\<close> of magnitude below 16385, which covers the
  representative inputs 0.0, -0.0, 12.5, -12.5, the values next to the 14-bit integer
  limit and the smallest fractional step \<open>1/32\<close>, \<open>ReadBitCoord\<close> applied at the same
  offset to the bits \<open>WriteBitCoord\<close> produced returns \<open>f\<close> truncated towards zero to a
  multiple of \<open>1/32\<close>: a value within one quantization step \<open>1/COORD_DENOMINATOR\<close> of
  \<open>f\<close>, and exactly 0 for \<open>f = 0\<close>.  The reader consumes exactly the bits written.\<close>

theorem C9_coord_roundtrip:
  assumes "\<bar>f\<bar> < 16385"
    and "\<not> w_bOverflow w" and "w_iCurBit w + 22 \<le> w_nDataBits w"
    and "w_nDataBits w \<le> 8 * length (w_pData w)"
  shows "(let w' = WriteBitCoord w f;
              r = StartReading (w_pData w') (w_nDataBytes w') (w_iCurBit w) (int (w_nDataBits w'));
              (v, r') = ReadBitCoord r
          in \<bar>v - f\<bar> \<le> COORD_RESOLUTION \<and> (f = 0 \<longrightarrow> v = 0) \<and>
             v = of_int (c_int (f * of_int COORD_DENOMINATOR)) * COORD_RESOLUTION \<and>
             r_iCurBit r' = w_iCurBit w' \<and> \<not> r_bOverflow r')"
proof -
  define w' where "w' = WriteBitCoord w f"
  define r where "r = StartReading (w_pData w') (w_nDataBytes w') (w_iCurBit w) (int (w_nDataBits w'))"
  define v where "v = (of_int (c_int (f * 32)) / 32 :: rat)"
  have rd: "ReadBitCoord r = (v, r\<lparr> r_iCurBit := w_iCurBit w' \<rparr>)"
    unfolding v_def by (rule coord_roundtrip_value [OF assms w'_def r_def])
  have "\<bar>of_int (c_int (f * 32)) - f * 32\<bar> < 1" by (rule c_int_trunc_err)
  moreover have "of_int (c_int (f * 32)) = v * 32" by (simp add: v_def)
  ultimately have "\<bar>v * 32 - f * 32\<bar> < 1" by (simp only:)
  moreover have "v * 32 - f * 32 = (v - f) * 32" by (simp only: left_diff_distrib)
  moreover have "\<bar>(v - f) * 32\<bar> = \<bar>v - f\<bar> * 32" by (simp only: abs_mult abs_numeral)
  ultimately have "\<bar>v - f\<bar> * 32 < 1" by (simp only:)
  then have "\<bar>v - f\<bar> \<le> 1 / 32" by (rule scaled_lt)
  then have err: "\<bar>v - f\<bar> \<le> COORD_RESOLUTION"
    by (simp add: COORD_RESOLUTION_def COORD_DENOMINATOR_def COORD_FRACTIONAL_BITS_def)
  have zero: "f = 0 \<longrightarrow> v = 0" by (simp add: v_def c_int_def)
  have val: "v = of_int (c_int (f * of_int COORD_DENOMINATOR)) * COORD_RESOLUTION"
    by (simp add: v_def COORD_RESOLUTION_def COORD_DENOMINATOR_def COORD_FRACTIONAL_BITS_def)
  have ov: "\<not> r_bOverflow r" by (simp add: r_def StartReading_def)
  show ?thesis
    unfolding Let_def w'_def [symmetric] r_def [symmetric] rd prod.case
    using err zero val ov by simp
qed

text \<open>The round trip of -12.5 in the twelve-byte writer, and the exact results for
  -12.5, 0, \<open>1/32\<close> and \<open>16383 + 31/32\<close>.\<close>

theorem C9_coord_roundtrip_witness:
  "(let w' = WriteBitCoord W12 (- 25 / 2);
        r = StartReading (w_pData w') (w_nDataBytes w') (w_iCurBit W12) (int (w_nDataBits w'));
        (v, r') = ReadBitCoord r
    in \<bar>v - (- 25 / 2)\<bar> \<le> COORD_RESOLUTION \<and> (- 25 / 2 = (0 :: rat) \<longrightarrow> v = 0) \<and>
       v = of_int (c_int ((- 25 / 2) * of_int COORD_DENOMINATOR)) * COORD_RESOLUTION \<and>
       r_iCurBit r' = w_iCurBit w' \<and> \<not> r_bOverflow r') \<and>
   fst (ReadBitCoord (reader_of (WriteBitCoord W12 (- 25 / 2)))) = - 25 / 2 \<and>
   fst (ReadBitCoord (reader_of (WriteBitCoord W12 0))) = 0 \<and>
   fst (ReadBitCoord (reader_of (WriteBitCoord W12 (1 / 32)))) = 1 / 32 \<and>
   fst (ReadBitCoord (reader_of (WriteBitCoord W12 (16383 + 31 / 32)))) = 16383 + 31 / 32"
proof -
  have h: "\<bar>- 25 / 2 :: rat\<bar> < 16385" "\<not> w_bOverflow W12" "w_iCurBit W12 + 22 \<le> w_nDataBits W12"
    "w_nDataBits W12 \<le> 8 * length (w_pData W12)"
    by (simp_all add: W12_def StartWriting_def)
  have e1: "fst (ReadBitCoord (reader_of (WriteBitCoord W12 (- 25 / 2)))) = - 25 / 2"
    by code_simp
  have e2: "fst (ReadBitCoord (reader_of (WriteBitCoord W12 0))) = 0"
    by code_simp
  have e3: "fst (ReadBitCoord (reader_of (WriteBitCoord W12 (1 / 32)))) = 1 / 32"
    by code_simp
  have e4: "fst (ReadBitCoord (reader_of (WriteBitCoord W12 (16383 + 31 / 32)))) = 16383 + 31 / 32"
    by code_simp
  from C9_coord_roundtrip [OF h] e1 e2 e3 e4 show ?thesis
    by (intro conjI)
qed

section \<open>Round trip of 32-bit variable-length integers\<close>

text \<open>The 32-bit varint writer and reader are inverse to each other on every value: the
  byte count is \<open>ByteSizeVarInt32\<close>, byte \<open>k\<close> of the encoding is \<open>varint_byte v k\<close>, and
  the byte-aligned fast path of \<open>WriteVarInt32\<close> stores the same bytes as its per-byte
  fallback.  The 64-bit writer does not share this property.\<close>

lemma ByteSizeVarInt32_loop_shift:
  "ByteSizeVarInt32_loop (sz + k) v = ByteSizeVarInt32_loop sz v + k"
proof (induction sz v rule: ByteSizeVarInt32_loop.induct)
  case (1 sz data)
  show ?case
  proof (cases "data > 0x7F")
    case True
    then show ?thesis
      using "1.IH" [OF True]
      by (subst ByteSizeVarInt32_loop.simps, subst (2) ByteSizeVarInt32_loop.simps) (simp add: ac_simps)
  next
    case False
    then show ?thesis
      by (subst ByteSizeVarInt32_loop.simps, subst (2) ByteSizeVarInt32_loop.simps) simp
  qed
qed

lemma ByteSizeVarInt32_rec:
  "ByteSizeVarInt32 v = (if v > 0x7F then ByteSizeVarInt32 (drop_bit 7 v) + 1 else 1)"
  unfolding ByteSizeVarInt32_def
  using ByteSizeVarInt32_loop_shift [of 1 1 "drop_bit 7 v"]
  by (subst ByteSizeVarInt32_loop.simps) simp

lemma ByteSizeVarInt32_pos: "1 \<le> ByteSizeVarInt32 v"
  by (subst ByteSizeVarInt32_rec) simp

lemma drop_bit_7_less: "v > 0x7F \<Longrightarrow> unat (drop_bit 7 v) < unat v" for v :: uint32
proof -
  assume "0x7F < v"
  then have "unat v \<noteq> 0" by (auto simp add: unat_eq_0)
  then have "unat v div 2 ^ 7 < unat v" by simp
  then show ?thesis by (simp add: drop_bit_eq_div unat_div)
qed

lemma ByteSizeVarInt32_groups:
  "(\<forall>k. k + 1 < ByteSizeVarInt32 v \<longrightarrow> drop_bit (7 * k) v > 0x7F) \<and>
   drop_bit (7 * (ByteSizeVarInt32 v - 1)) v \<le> 0x7F"
proof (induction v rule: measure_induct_rule [of unat])
  case (less v)
  show ?case
  proof (cases "v > 0x7F")
    case False
    then have "ByteSizeVarInt32 v = 1" by (subst ByteSizeVarInt32_rec) simp
    then show ?thesis using False by simp
  next
    case True
    let ?u = "drop_bit 7 v"
    have n: "ByteSizeVarInt32 v = ByteSizeVarInt32 ?u + 1"
      using True by (subst ByteSizeVarInt32_rec) simp
    note IH = less.IH [OF drop_bit_7_less [OF True]]
    have sh: "drop_bit (7 * k) ?u = drop_bit (7 * (k + 1)) v" for k
      by (simp add: ac_simps)
    have a: "drop_bit (7 * k) v > 0x7F" if "k + 1 < ByteSizeVarInt32 v" for k
    proof (cases k)
      case 0
      then show ?thesis using True by simp
    next
      case (Suc j)
      then have "j + 1 < ByteSizeVarInt32 ?u" using that n by simp
      then have "drop_bit (7 * j) ?u > 0x7F" using IH by blast
      then show ?thesis using Suc sh [of j] by simp
    qed
    have "ByteSizeVarInt32 v - 1 = (ByteSizeVarInt32 ?u - 1) + 1"
      using n ByteSizeVarInt32_pos [of ?u] by simp
    then have b: "drop_bit (7 * (ByteSizeVarInt32 v - 1)) v \<le> 0x7F"
      using IH sh [of "ByteSizeVarInt32 ?u - 1"] by simp
    show ?thesis using a b by blast
  qed
qed

lemma drop_bit_28_small: "drop_bit 28 v \<le> 0x7F" for v :: uint32
proof -
  have "unat (drop_bit 28 v) < 2 ^ 4"
  proof -
    have "unat v < 2 ^ 32" using unsigned_less [of v, where 'a = nat] by simp
    then have "unat v div 2 ^ 28 < 2 ^ 4" by (simp add: less_mult_imp_div_less)
    then show ?thesis by (simp add: drop_bit_eq_div unat_div)
  qed
  then show ?thesis by (simp add: word_le_nat_alt)
qed

lemma ByteSizeVarInt32_le: "ByteSizeVarInt32 v \<le> 5"
proof (rule ccontr)
  assume "\<not> ByteSizeVarInt32 v \<le> 5"
  then have "4 + 1 < ByteSizeVarInt32 v" by simp
  then have "drop_bit (7 * 4) v > 0x7F" using ByteSizeVarInt32_groups [of v] by blast
  then show False using drop_bit_28_small [of v] by simp
qed

lemma varint_byte_shift: "varint_byte (drop_bit 7 v) k = varint_byte v (k + 1)"
  by (simp add: varint_byte_def ac_simps)

lemma varint_byte_0: "varint_byte v 0 = (if v > 0x7F then (v AND 0x7F) OR 0x80 else v AND 0x7F)"
  by (simp add: varint_byte_def)

lemma WriteVarInt32_bytes_get_bit:
  assumes "\<not> w_bOverflow w"
    and "w_iCurBit w + 8 * ByteSizeVarInt32 v \<le> w_nDataBits w"
    and "w_nDataBits w \<le> 8 * length (w_pData w)"
  shows "\<not> w_bOverflow (WriteVarInt32_bytes w v) \<and>
         w_iCurBit (WriteVarInt32_bytes w v) = w_iCurBit w + 8 * ByteSizeVarInt32 v \<and>
         w_nDataBits (WriteVarInt32_bytes w v) = w_nDataBits w \<and>
         w_nDataBytes (WriteVarInt32_bytes w v) = w_nDataBytes w \<and>
         length (w_pData (WriteVarInt32_bytes w v)) = length (w_pData w) \<and>
         (\<forall>j. get_bit (w_pData (WriteVarInt32_bytes w v)) j =
            (if w_iCurBit w \<le> j \<and> j < w_iCurBit w + 8 * ByteSizeVarInt32 v
             then bit (varint_byte v ((j - w_iCurBit w) div 8)) ((j - w_iCurBit w) mod 8)
             else get_bit (w_pData w) j))"
  using assms
proof (induction w v rule: WriteVarInt32_bytes.induct)
  case (1 w data)
  let ?c = "w_iCurBit w"
  show ?case
  proof (cases "data > 0x7F")
    case False
    then have n: "ByteSizeVarInt32 data = 1" by (subst ByteSizeVarInt32_rec) simp
    have e: "WriteVarInt32_bytes w data = WriteUBitLong w (data AND 0x7F) 8"
      using False by (subst WriteVarInt32_bytes.simps) simp
    have room: "?c + 8 \<le> w_nDataBits w" using "1.prems"(2) n by simp
    note f = WriteUBitLong_get_bit [OF "1.prems"(1) room "1.prems"(3), of "data AND 0x7F"]
    have vb: "varint_byte data 0 = data AND 0x7F" using False by (simp add: varint_byte_0)
    have gb: "get_bit (w_pData (WriteUBitLong w (data AND 0x7F) 8)) j =
            (if ?c \<le> j \<and> j < ?c + 8 * 1
             then bit (varint_byte data ((j - ?c) div 8)) ((j - ?c) mod 8)
             else get_bit (w_pData w) j)" for j
    proof (cases "?c \<le> j \<and> j < ?c + 8")
      case True
      then have "j - ?c < 8" by linarith
      then have "(j - ?c) div 8 = 0" "(j - ?c) mod 8 = j - ?c" by simp_all
      then show ?thesis using True f(6) [of j] vb by simp
    next
      case out: False
      then show ?thesis using f(6) [of j] by auto
    qed
    show ?thesis
      unfolding e n using f(1-5) gb by simp
  next
    case True
    let ?u = "drop_bit 7 data"
    let ?w1 = "WriteUBitLong w ((data AND 0x7F) OR 0x80) 8"
    have n: "ByteSizeVarInt32 data = ByteSizeVarInt32 ?u + 1"
      using True by (subst ByteSizeVarInt32_rec) simp
    have e: "WriteVarInt32_bytes w data = WriteVarInt32_bytes ?w1 ?u"
      using True by (subst WriteVarInt32_bytes.simps) simp
    have room: "?c + 8 \<le> w_nDataBits w" using "1.prems"(2) n by simp
    note f = WriteUBitLong_get_bit [OF "1.prems"(1) room "1.prems"(3), of "(data AND 0x7F) OR 0x80"]
    have p1: "\<not> w_bOverflow ?w1" using f(1) .
    have p2: "w_iCurBit ?w1 + 8 * ByteSizeVarInt32 ?u \<le> w_nDataBits ?w1"
      using f(2,3) "1.prems"(2) n by simp
    have p3: "w_nDataBits ?w1 \<le> 8 * length (w_pData ?w1)"
      using f(3,5) "1.prems"(3) by simp
    note IH = "1.IH" [OF True p1 p2 p3]
    have vb: "varint_byte data 0 = (data AND 0x7F) OR 0x80" using True by (simp add: varint_byte_0)
    have gb: "get_bit (w_pData (WriteVarInt32_bytes ?w1 ?u)) j =
            (if ?c \<le> j \<and> j < ?c + 8 * ByteSizeVarInt32 data
             then bit (varint_byte data ((j - ?c) div 8)) ((j - ?c) mod 8)
             else get_bit (w_pData w) j)" for j
    proof -
      consider "j < ?c" | "?c \<le> j" "j < ?c + 8" | "?c + 8 \<le> j" by linarith
      then show ?thesis
      proof cases
        case 1
        then show ?thesis using IH f(2) f(6) [of j] by simp
      next
        case 2
        then have "j - ?c < 8" by linarith
        then have "(j - ?c) div 8 = 0" "(j - ?c) mod 8 = j - ?c" by simp_all
        then show ?thesis using 2 IH f(2) f(6) [of j] vb n by simp
      next
        case 3
        then have "j - ?c = (j - (?c + 8)) + 8" by linarith
        then have d: "(j - ?c) div 8 = (j - (?c + 8)) div 8 + 1" "(j - ?c) mod 8 = (j - (?c + 8)) mod 8"
          by (simp_all only: div_add_self2 mod_add_self2)
        have "j < ?c + 8 * ByteSizeVarInt32 data \<longleftrightarrow> j < ?c + 8 + 8 * ByteSizeVarInt32 ?u"
          using n by auto
        then show ?thesis using 3 IH f(2) f(6) [of j] d by (simp add: varint_byte_shift)
      qed
    qed
    show ?thesis
      unfolding e using IH f(2,3,4,5) n gb by simp
  qed
qed

lemma ReadVarInt32_loop_stop:
  assumes "\<not> r_bOverflow r" and "r_iCurBit r + 8 * (j + 1) \<le> r_nDataBits r"
    and "j < kMaxVarint32Bytes"
    and "\<forall>k < j. stream_byte r k AND 0x80 \<noteq> 0" and "stream_byte r j AND 0x80 = 0"
    and "count \<le> j"
  shows "ReadVarInt32_loop (r\<lparr> r_iCurBit := r_iCurBit r + 8 * count \<rparr>) (groups32 r count) count
       = (groups32 r (j + 1), r\<lparr> r_iCurBit := r_iCurBit r + 8 * (j + 1) \<rparr>)"
  using assms(6)
proof (induction "j - count" arbitrary: count)
  case 0
  then have c: "count = j" by simp
  have rd: "ReadUBitLong (r\<lparr> r_iCurBit := r_iCurBit r + 8 * j \<rparr>) 8
      = (stream_byte r j, r\<lparr> r_iCurBit := r_iCurBit r + 8 * (j + 1) \<rparr>)"
    using assms(1,2) by (simp add: ReadUBitLong_def stream_byte_def)
  show ?case
    unfolding c using assms(3,5) rd
    by (subst ReadVarInt32_loop.simps) (simp add: Let_def)
next
  case (Suc d)
  then have lt: "count < j" by simp
  have rd: "ReadUBitLong (r\<lparr> r_iCurBit := r_iCurBit r + 8 * count \<rparr>) 8
      = (stream_byte r count, r\<lparr> r_iCurBit := r_iCurBit r + 8 * (count + 1) \<rparr>)"
    using assms(1,2) lt by (simp add: ReadUBitLong_def stream_byte_def)
  have cont: "stream_byte r count AND 0x80 \<noteq> 0" using assms(4) lt by simp
  have ne: "count \<noteq> kMaxVarint32Bytes" using lt assms(3) by simp
  have IH: "ReadVarInt32_loop (r\<lparr> r_iCurBit := r_iCurBit r + 8 * (count + 1) \<rparr>) (groups32 r (count + 1)) (count + 1)
       = (groups32 r (j + 1), r\<lparr> r_iCurBit := r_iCurBit r + 8 * (j + 1) \<rparr>)"
    using Suc.hyps(1) [of "count + 1"] Suc.hyps(2) lt by simp
  show ?case
    using ne rd cont IH
    by (subst ReadVarInt32_loop.simps) (simp add: Let_def)
qed

lemma groups32_value:
  assumes "\<forall>k < n. stream_byte r k AND 0x7F = take_bit 7 (drop_bit (7 * k) v)"
  shows "groups32 r n = take_bit (7 * n) v"
  using assms
proof (induction n)
  case 0
  then show ?case by simp
next
  case (Suc n)
  then have IH: "groups32 r n = take_bit (7 * n) v" by simp
  have g: "stream_byte r n AND 0x7F = take_bit 7 (drop_bit (7 * n) v)" using Suc.prems by simp
  have "take_bit (7 * n) v OR push_bit (7 * n) (take_bit 7 (drop_bit (7 * n) v)) = take_bit (7 * Suc n) v"
  proof (rule bit_word_eqI)
    fix k assume "k < LENGTH(32)"
    show "bit (take_bit (7 * n) v OR push_bit (7 * n) (take_bit 7 (drop_bit (7 * n) v))) k
        \<longleftrightarrow> bit (take_bit (7 * Suc n) v) k"
      by (cases "k < 7 * n")
        (auto simp add: bit_or_iff bit_take_bit_iff bit_push_bit_iff bit_drop_bit_eq dest: bit_imp_le_length)
  qed
  then show ?case by (simp add: IH g)
qed

lemma varint_byte_groups:
  "varint_byte v k AND 0x7F = take_bit 7 (drop_bit (7 * k) v)"
  "varint_byte v k AND 0x80 \<noteq> 0 \<longleftrightarrow> drop_bit (7 * k) v > 0x7F"
  "take_bit 8 (varint_byte v k) = varint_byte v k"
proof -
  let ?x = "drop_bit (7 * k) v"
  have m7: "(0x7F :: uint32) = mask 7" by (simp add: mask_eq_exp_minus_1)
  have b7: "bit (0x80 :: int) i \<longleftrightarrow> i = 7" for i
    using bit_exp_iff [where ?'a = int, of 7 i] by auto
  have a: "bit ((?x AND 0x7F) OR 0x80) i \<longleftrightarrow> (i < 7 \<and> bit ?x i) \<or> i = 7" for i
    unfolding m7 by (auto simp add: bit_or_iff bit_and_iff bit_mask_iff b7)
  have b: "bit (?x AND 0x7F) i \<longleftrightarrow> i < 7 \<and> bit ?x i" for i
    unfolding m7 by (auto simp add: bit_and_iff bit_mask_iff)
  have vb: "bit (varint_byte v k) i \<longleftrightarrow> (i < 7 \<and> bit ?x i) \<or> (i = 7 \<and> ?x > 0x7F)" for i
    unfolding varint_byte_def using a b by auto
  show "varint_byte v k AND 0x7F = take_bit 7 ?x"
    unfolding m7 by (rule bit_word_eqI) (auto simp add: bit_and_iff bit_mask_iff bit_take_bit_iff vb)
  show "varint_byte v k AND 0x80 \<noteq> 0 \<longleftrightarrow> ?x > 0x7F"
    using vb [of 7] by (simp add: cont_bit_iff)
  show "take_bit 8 (varint_byte v k) = varint_byte v k"
    by (rule bit_word_eqI) (auto simp add: bit_take_bit_iff vb)
qed

lemma le_7F_bits: "x \<le> 0x7F \<Longrightarrow> i \<ge> 7 \<Longrightarrow> \<not> bit x i" for x :: uint32
proof -
  assume a: "x \<le> 0x7F" and i: "i \<ge> 7"
  have "uint x < 2 ^ 7" using a by (simp add: word_le_def)
  then have "take_bit 7 x = x"
    by (simp only: take_bit_eq_mask mask_eq_iff)
  then have "bit x i \<longleftrightarrow> bit (take_bit 7 x) i" by simp
  then show ?thesis using i by (simp add: bit_take_bit_iff)
qed

lemma take_bit_all_groups: "take_bit (7 * ByteSizeVarInt32 v) v = v"
proof (rule bit_word_eqI)
  fix i assume "i < LENGTH(32)"
  let ?n = "ByteSizeVarInt32 v"
  have last: "drop_bit (7 * (?n - 1)) v \<le> 0x7F" using ByteSizeVarInt32_groups [of v] by blast
  have hi: "\<not> bit v i" if "7 * ?n \<le> i"
  proof -
    have "7 * (?n - 1) + 7 = 7 * ?n" using ByteSizeVarInt32_pos [of v] by simp
    then have ge: "i - 7 * (?n - 1) \<ge> 7" and le: "7 * (?n - 1) \<le> i" using that by linarith+
    have "\<not> bit (drop_bit (7 * (?n - 1)) v) (i - 7 * (?n - 1))"
      using le_7F_bits [OF last ge] .
    then show ?thesis using le by (simp add: bit_drop_bit_eq)
  qed
  show "bit (take_bit (7 * ?n) v) i \<longleftrightarrow> bit v i"
  proof (cases "i < 7 * ?n")
    case True
    then show ?thesis by (simp add: bit_take_bit_iff)
  next
    case False
    then have "\<not> bit v i" using hi by simp
    then show ?thesis by (simp add: bit_take_bit_iff)
  qed
qed

lemma ReadVarInt32_encoded:
  assumes "\<not> r_bOverflow r"
    and "r_iCurBit r + 8 * ByteSizeVarInt32 v \<le> r_nDataBits r"
    and "\<And>j. r_iCurBit r \<le> j \<Longrightarrow> j < r_iCurBit r + 8 * ByteSizeVarInt32 v \<Longrightarrow>
           get_bit (r_pData r) j = bit (varint_byte v ((j - r_iCurBit r) div 8)) ((j - r_iCurBit r) mod 8)"
  shows "ReadVarInt32 r = (v, r\<lparr> r_iCurBit := r_iCurBit r + 8 * ByteSizeVarInt32 v \<rparr>)"
proof -
  let ?n = "ByteSizeVarInt32 v" and ?c = "r_iCurBit r"
  have n: "1 \<le> ?n" "?n \<le> 5" using ByteSizeVarInt32_pos ByteSizeVarInt32_le by simp_all
  have sb: "stream_byte r k = varint_byte v k" if "k < ?n" for k
  proof -
    have "get_bit (r_pData r) (?c + 8 * k + i) = bit (varint_byte v k) i" if "i < 8" for i
    proof -
      have "?c \<le> ?c + 8 * k + i" "?c + 8 * k + i < ?c + 8 * ?n"
        using that \<open>k < ?n\<close> by simp_all
      moreover have "(?c + 8 * k + i - ?c) div 8 = k" "(?c + 8 * k + i - ?c) mod 8 = i"
        using that by simp_all
      ultimately show ?thesis using assms(3) [of "?c + 8 * k + i"] by simp
    qed
    then have "load_bits (r_pData r) (?c + 8 * k) 8 = take_bit 8 (varint_byte v k)"
      by (intro load_bits_eqI) simp
    then show ?thesis by (simp add: stream_byte_def varint_byte_groups(3))
  qed
  have cont: "\<forall>k < ?n - 1. stream_byte r k AND 0x80 \<noteq> 0"
  proof (intro allI impI)
    fix k assume k: "k < ?n - 1"
    then have "drop_bit (7 * k) v > 0x7F" using ByteSizeVarInt32_groups [of v] by simp
    then show "stream_byte r k AND 0x80 \<noteq> 0"
      using sb [of k] k varint_byte_groups(2) [of v k] by simp
  qed
  have last: "stream_byte r (?n - 1) AND 0x80 = 0"
  proof -
    have "\<not> drop_bit (7 * (?n - 1)) v > 0x7F" using ByteSizeVarInt32_groups [of v] by (simp add: not_less)
    then show ?thesis using sb [of "?n - 1"] n varint_byte_groups(2) [of v "?n - 1"] by simp
  qed
  have room: "?c + 8 * (?n - 1 + 1) \<le> r_nDataBits r" using assms(2) n by simp
  have j: "?n - 1 < kMaxVarint32Bytes" using n by (simp add: kMaxVarint32Bytes_def)
  have "ReadVarInt32 r = (groups32 r (?n - 1 + 1), r\<lparr> r_iCurBit := ?c + 8 * (?n - 1 + 1) \<rparr>)"
    using ReadVarInt32_loop_stop [OF assms(1) room j cont last, of 0]
    by (simp add: ReadVarInt32_def)
  moreover have "groups32 r ?n = take_bit (7 * ?n) v"
    by (rule groups32_value) (simp add: sb varint_byte_groups(1))
  ultimately show ?thesis using n by (simp add: take_bit_all_groups)
qed

lemma memory_eqI:
  assumes "length a = length b" and "\<And>j. j < 8 * length a \<Longrightarrow> get_bit a j = get_bit b j"
  shows "a = b"
proof (rule nth_equalityI)
  show "length a = length b" by (rule assms(1))
next
  fix i assume i: "i < length a"
  show "a ! i = b ! i"
  proof (rule bit_word_eqI)
    fix k assume "k < LENGTH(8)"
    then have k: "k < 8" by simp
    then have "8 * i + k < 8 * length a" using i by simp
    then have "get_bit a (8 * i + k) = get_bit b (8 * i + k)" by (rule assms(2))
    then show "bit (a ! i) k \<longleftrightarrow> bit (b ! i) k" using k by (simp add: get_bit_def)
  qed
qed

lemma get_bit_update:
  "i < length m \<Longrightarrow> get_bit (m[i := x]) j = (if j div 8 = i then bit x (j mod 8) else get_bit m j)"
  by (simp add: get_bit_def)

lemma store_bits_aligned:
  assumes "c mod 8 = 0" and "c div 8 < length m"
  shows "store_bits m c 8 x = m[c div 8 := ucast x]"
proof (rule memory_eqI)
  show "length (store_bits m c 8 x) = length (m[c div 8 := ucast x])"
    by (simp add: length_store_bits)
next
  fix j assume "j < 8 * length (store_bits m c 8 x)"
  have c: "c = 8 * (c div 8)" using assms(1) by auto
  have len: "c + 8 \<le> 8 * length m" using assms(2) c by linarith
  have in_range: "c \<le> j \<and> j < c + 8 \<longleftrightarrow> j div 8 = c div 8"
    using c by auto
  have off: "j - c = j mod 8" if "j div 8 = c div 8"
    using that c by (metis add_diff_cancel_left' mult_div_mod_eq)
  show "get_bit (store_bits m c 8 x) j = get_bit (m[c div 8 := ucast x]) j"
  proof (cases "j div 8 = c div 8")
    case True
    then show ?thesis
      using get_store_bits [OF len, of x j] in_range off assms(2)
      by (simp add: get_bit_update bit_ucast_iff)
  next
    case False
    then show ?thesis
      using get_store_bits [OF len, of x j] in_range assms(2)
      by (simp add: get_bit_update)
  qed
qed

lemma WriteUBitLong_aligned:
  assumes "\<not> w_bOverflow w" and "w_iCurBit w mod 8 = 0"
    and "w_iCurBit w + 8 \<le> w_nDataBits w" and "w_nDataBits w \<le> 8 * length (w_pData w)"
  shows "WriteUBitLong w x 8 = w\<lparr> w_pData := (w_pData w)[w_iCurBit w div 8 := ucast x],
                                    w_iCurBit := w_iCurBit w + 8 \<rparr>"
proof -
  have "w_iCurBit w div 8 < length (w_pData w)" using assms(3,4) by simp
  then show ?thesis
    using assms(1,3) store_bits_aligned [OF assms(2), of "w_pData w" x]
    by (simp add: WriteUBitLong_def)
qed

lemma drop_bit_gt_7F: "drop_bit k v > 0x7F \<longleftrightarrow> v \<ge> 2 ^ (k + 7)" if "k + 7 < 32" for v :: uint32
proof -
  have "drop_bit k v > 0x7F \<longleftrightarrow> \<not> unat (drop_bit k v) < 2 ^ 7"
    by (simp add: word_less_nat_alt not_less) linarith
  also have "\<dots> \<longleftrightarrow> \<not> unat v div 2 ^ k < 2 ^ 7"
    by (simp only: unat_drop_bit_eq) (simp only: drop_bit_eq_div)
  also have "\<dots> \<longleftrightarrow> \<not> unat v < 2 ^ (k + 7)"
    by (simp add: div_less_iff_less_mult power_add mult.commute)
  also have "\<dots> \<longleftrightarrow> \<not> uint v < 2 ^ (k + 7)"
  proof -
    have "uint v < 2 ^ (k + 7) \<longleftrightarrow> int (unat v) < int (2 ^ (k + 7))" by simp
    then show ?thesis by (simp only: of_nat_less_iff)
  qed
  also have "\<dots> \<longleftrightarrow> \<not> v < 2 ^ (k + 7)"
    using that by (simp add: word_2p_lem word_size)
  finally show ?thesis by (simp add: not_less)
qed

lemma byte_cont_eq: "(ucast ((x AND 0x7F) OR 0x80) :: byte) = ucast (x OR 0x80)" for x :: uint32
proof (rule bit_word_eqI)
  fix k assume "k < LENGTH(8)"
  then have k: "k < 8" by simp
  have m7: "(0x7F :: uint32) = mask 7" by (simp add: mask_eq_exp_minus_1)
  have b7: "bit (0x80 :: int) i \<longleftrightarrow> i = 7" for i
    using bit_exp_iff [where ?'a = int, of 7 i] by auto
  show "bit (ucast ((x AND 0x7F) OR 0x80) :: byte) k \<longleftrightarrow> bit (ucast (x OR 0x80) :: byte) k"
    unfolding m7 using k by (auto simp add: bit_ucast_iff bit_or_iff bit_and_iff bit_mask_iff b7)
qed

lemma byte_last_eq: "(ucast (x OR 0x80) :: byte) AND 0x7F = ucast (x AND 0x7F)" for x :: uint32
proof (rule bit_word_eqI)
  fix k assume "k < LENGTH(8)"
  then have k: "k < 8" by simp
  have m7: "(0x7F :: uint32) = mask 7" "(0x7F :: byte) = mask 7" by (simp_all add: mask_eq_exp_minus_1)
  have b7: "bit (0x80 :: int) i \<longleftrightarrow> i = 7" for i
    using bit_exp_iff [where ?'a = int, of 7 i] by auto
  show "bit ((ucast (x OR 0x80) :: byte) AND 0x7F) k \<longleftrightarrow> bit (ucast (x AND 0x7F) :: byte) k"
    unfolding m7 using k by (auto simp add: bit_ucast_iff bit_or_iff bit_and_iff bit_mask_iff b7)
qed

lemma byte_small_eq: "x \<le> 0x7F \<Longrightarrow> (ucast (x AND 0x7F) :: byte) = ucast x" for x :: uint32
proof (rule bit_word_eqI)
  fix k assume "k < LENGTH(8)" and x: "x \<le> 0x7F"
  have m7: "(0x7F :: uint32) = mask 7" by (simp add: mask_eq_exp_minus_1)
  have "\<not> bit x 7" using le_7F_bits [OF x, of 7] by simp
  then have "bit x k \<Longrightarrow> k < 7" using \<open>k < LENGTH(8)\<close> by (cases "k = 7") auto
  then show "bit (ucast (x AND 0x7F) :: byte) k \<longleftrightarrow> bit (ucast x :: byte) k"
    unfolding m7 by (auto simp add: bit_ucast_iff bit_and_iff bit_mask_iff)
qed

lemma WriteVarInt32_bytes_last:
  "\<not> v > 0x7F \<Longrightarrow> WriteVarInt32_bytes w v = WriteUBitLong w (v AND 0x7F) 8"
  by (subst WriteVarInt32_bytes.simps) simp

lemma WriteVarInt32_bytes_more:
  "v > 0x7F \<Longrightarrow> WriteVarInt32_bytes w v
     = WriteVarInt32_bytes (WriteUBitLong w ((v AND 0x7F) OR 0x80) 8) (drop_bit 7 v)"
  by (subst WriteVarInt32_bytes.simps) simp

lemma WriteUBitLong_aligned_at:
  assumes "\<not> w_bOverflow w" and "(w_iCurBit w + d) mod 8 = 0"
    and "w_iCurBit w + d + 8 \<le> w_nDataBits w" and "w_nDataBits w \<le> 8 * length m'"
  shows "WriteUBitLong (w\<lparr> w_pData := m', w_iCurBit := w_iCurBit w + d \<rparr>) x 8
       = w\<lparr> w_pData := m'[(w_iCurBit w + d) div 8 := ucast x], w_iCurBit := w_iCurBit w + d + 8 \<rparr>"
  using WriteUBitLong_aligned [of "w\<lparr> w_pData := m', w_iCurBit := w_iCurBit w + d \<rparr>" x] assms
  by simp

lemma WriteVarInt32_paths_agree:
  assumes "\<not> w_bOverflow w" and "w_iCurBit w mod 8 = 0"
    and "w_iCurBit w + 40 \<le> w_nDataBits w" and "w_nDataBits w \<le> 8 * length (w_pData w)"
  shows "WriteVarInt32 w v = WriteVarInt32_bytes w v"
proof -
  define c where "c = w_iCurBit w"
  define m where "m = w_pData w"
  define t where "t = c div 8"
  define a0 :: byte where "a0 = ucast (v OR 0x80)"
  define a1 :: byte where "a1 = ucast (drop_bit 7 v OR 0x80)"
  define a2 :: byte where "a2 = ucast (drop_bit 14 v OR 0x80)"
  define a3 :: byte where "a3 = ucast (drop_bit 21 v OR 0x80)"
  note ds = c_def [symmetric] m_def [symmetric] t_def [symmetric] a0_def [symmetric]
    a1_def [symmetric] a2_def [symmetric] a3_def [symmetric]
  have tlen: "t + 4 < length m" using assms(2,3,4) unfolding t_def c_def m_def by presburger
  have room: "c + 40 \<le> w_nDataBits w" "w_nDataBits w \<le> 8 * length m" "c mod 8 = 0"
    using assms by (simp_all add: c_def m_def)
  have g7: "v > 0x7F \<longleftrightarrow> v \<ge> 2 ^ 7" using drop_bit_gt_7F [of 0 v] by simp
  have g14: "drop_bit 7 v > 0x7F \<longleftrightarrow> v \<ge> 2 ^ 14" using drop_bit_gt_7F [of 7 v] by simp
  have g21: "drop_bit 14 v > 0x7F \<longleftrightarrow> v \<ge> 2 ^ 21" using drop_bit_gt_7F [of 14 v] by simp
  have g28: "drop_bit 21 v > 0x7F \<longleftrightarrow> v \<ge> 2 ^ 28" using drop_bit_gt_7F [of 21 v] by simp
  have g35: "\<not> drop_bit 28 v > 0x7F" using drop_bit_28_small [of v] by (simp add: not_less)
  have dd: "drop_bit 7 (drop_bit 7 v) = drop_bit 14 v" "drop_bit 7 (drop_bit 14 v) = drop_bit 21 v"
    "drop_bit 7 (drop_bit 21 v) = drop_bit 28 v"
    by simp_all
  have s0: "WriteUBitLong w x 8 = w\<lparr> w_pData := m[t := ucast x], w_iCurBit := c + 8 \<rparr>" for x
    using WriteUBitLong_aligned [of w x] assms by (simp add: c_def m_def t_def)
  have md: "(w_iCurBit w + 8) mod 8 = 0" "(w_iCurBit w + 16) mod 8 = 0"
    "(w_iCurBit w + 24) mod 8 = 0" "(w_iCurBit w + 32) mod 8 = 0"
    using assms(2) by presburger+
  have dv: "(w_iCurBit w + 8) div 8 = t + 1" "(w_iCurBit w + 16) div 8 = t + 2"
    "(w_iCurBit w + 24) div 8 = t + 3" "(w_iCurBit w + 32) div 8 = t + 4"
    unfolding t_def c_def by presburger+
  have s1: "WriteUBitLong (w\<lparr> w_pData := m', w_iCurBit := c + 8 \<rparr>) x 8
        = w\<lparr> w_pData := m'[t + 1 := ucast x], w_iCurBit := c + 16 \<rparr>" if "length m' = length m" for m' x
  proof -
    have "w_iCurBit w + 8 + 8 \<le> w_nDataBits w" "w_nDataBits w \<le> 8 * length m'"
      using assms(3,4) that by (simp_all add: m_def)
    from WriteUBitLong_aligned_at [OF assms(1) md(1) this, of x] show ?thesis
      unfolding dv c_def by simp
  qed
  have s2: "WriteUBitLong (w\<lparr> w_pData := m', w_iCurBit := c + 16 \<rparr>) x 8
        = w\<lparr> w_pData := m'[t + 2 := ucast x], w_iCurBit := c + 24 \<rparr>" if "length m' = length m" for m' x
  proof -
    have "w_iCurBit w + 16 + 8 \<le> w_nDataBits w" "w_nDataBits w \<le> 8 * length m'"
      using assms(3,4) that by (simp_all add: m_def)
    from WriteUBitLong_aligned_at [OF assms(1) md(2) this, of x] show ?thesis
      unfolding dv c_def by simp
  qed
  have s3: "WriteUBitLong (w\<lparr> w_pData := m', w_iCurBit := c + 24 \<rparr>) x 8
        = w\<lparr> w_pData := m'[t + 3 := ucast x], w_iCurBit := c + 32 \<rparr>" if "length m' = length m" for m' x
  proof -
    have "w_iCurBit w + 24 + 8 \<le> w_nDataBits w" "w_nDataBits w \<le> 8 * length m'"
      using assms(3,4) that by (simp_all add: m_def)
    from WriteUBitLong_aligned_at [OF assms(1) md(3) this, of x] show ?thesis
      unfolding dv c_def by simp
  qed
  have s4: "WriteUBitLong (w\<lparr> w_pData := m', w_iCurBit := c + 32 \<rparr>) x 8
        = w\<lparr> w_pData := m'[t + 4 := ucast x], w_iCurBit := c + 40 \<rparr>" if "length m' = length m" for m' x
  proof -
    have "w_iCurBit w + 32 + 8 \<le> w_nDataBits w" "w_nDataBits w \<le> 8 * length m'"
      using assms(3,4) that by (simp_all add: m_def)
    from WriteUBitLong_aligned_at [OF assms(1) md(4) this, of x] show ?thesis
      unfolding dv c_def by simp
  qed
  define M1 where "M1 = m[t := a0]"
  define M2 where "M2 = M1[t + 1 := a1]"
  define M3 where "M3 = M2[t + 2 := a2]"
  define M4 where "M4 = M3[t + 3 := a3]"
  have len: "length M1 = length m" "length M2 = length m" "length M3 = length m"
    "length M4 = length m"
    by (simp_all add: M1_def M2_def M3_def M4_def)
  have r1: "WriteVarInt32_bytes w v
      = WriteVarInt32_bytes (w\<lparr> w_pData := M1, w_iCurBit := c + 8 \<rparr>) (drop_bit 7 v)"
    if "v \<ge> 2 ^ 7"
    using that g7 by (simp only: WriteVarInt32_bytes_more s0 byte_cont_eq M1_def a0_def)
  have r2: "WriteVarInt32_bytes (w\<lparr> w_pData := M1, w_iCurBit := c + 8 \<rparr>) (drop_bit 7 v)
      = WriteVarInt32_bytes (w\<lparr> w_pData := M2, w_iCurBit := c + 16 \<rparr>) (drop_bit 14 v)"
    if "v \<ge> 2 ^ 14"
    using that g14 by (simp only: WriteVarInt32_bytes_more s1 [OF len(1)] byte_cont_eq M2_def a1_def dd)
  have r3: "WriteVarInt32_bytes (w\<lparr> w_pData := M2, w_iCurBit := c + 16 \<rparr>) (drop_bit 14 v)
      = WriteVarInt32_bytes (w\<lparr> w_pData := M3, w_iCurBit := c + 24 \<rparr>) (drop_bit 21 v)"
    if "v \<ge> 2 ^ 21"
    using that g21 by (simp only: WriteVarInt32_bytes_more s2 [OF len(2)] byte_cont_eq M3_def a2_def dd)
  have r4: "WriteVarInt32_bytes (w\<lparr> w_pData := M3, w_iCurBit := c + 24 \<rparr>) (drop_bit 21 v)
      = WriteVarInt32_bytes (w\<lparr> w_pData := M4, w_iCurBit := c + 32 \<rparr>) (drop_bit 28 v)"
    if "v \<ge> 2 ^ 28"
    using that g28 by (simp only: WriteVarInt32_bytes_more s3 [OF len(3)] byte_cont_eq M4_def a3_def dd)
  have l0: "WriteVarInt32_bytes w v
      = w\<lparr> w_pData := m[t := ucast (v AND 0x7F)], w_iCurBit := c + 8 \<rparr>"
    if "\<not> v \<ge> 2 ^ 7"
  proof -
    from that g7 have n: "\<not> v > 0x7F" by simp
    show ?thesis by (simp only: WriteVarInt32_bytes_last [OF n] s0)
  qed
  have l1: "WriteVarInt32_bytes (w\<lparr> w_pData := M1, w_iCurBit := c + 8 \<rparr>) (drop_bit 7 v)
      = w\<lparr> w_pData := M1[t + 1 := ucast (drop_bit 7 v AND 0x7F)], w_iCurBit := c + 16 \<rparr>"
    if "\<not> v \<ge> 2 ^ 14"
  proof -
    from that g14 have n: "\<not> drop_bit 7 v > 0x7F" by simp
    show ?thesis by (simp only: WriteVarInt32_bytes_last [OF n] s1 [OF len(1)])
  qed
  have l2: "WriteVarInt32_bytes (w\<lparr> w_pData := M2, w_iCurBit := c + 16 \<rparr>) (drop_bit 14 v)
      = w\<lparr> w_pData := M2[t + 2 := ucast (drop_bit 14 v AND 0x7F)], w_iCurBit := c + 24 \<rparr>"
    if "\<not> v \<ge> 2 ^ 21"
  proof -
    from that g21 have n: "\<not> drop_bit 14 v > 0x7F" by simp
    show ?thesis by (simp only: WriteVarInt32_bytes_last [OF n] s2 [OF len(2)])
  qed
  have l3: "WriteVarInt32_bytes (w\<lparr> w_pData := M3, w_iCurBit := c + 24 \<rparr>) (drop_bit 21 v)
      = w\<lparr> w_pData := M3[t + 3 := ucast (drop_bit 21 v AND 0x7F)], w_iCurBit := c + 32 \<rparr>"
    if "\<not> v \<ge> 2 ^ 28"
  proof -
    from that g28 have n: "\<not> drop_bit 21 v > 0x7F" by simp
    show ?thesis by (simp only: WriteVarInt32_bytes_last [OF n] s3 [OF len(3)])
  qed
  have l4: "WriteVarInt32_bytes (w\<lparr> w_pData := M4, w_iCurBit := c + 32 \<rparr>) (drop_bit 28 v)
      = w\<lparr> w_pData := M4[t + 4 := ucast (drop_bit 28 v)], w_iCurBit := c + 40 \<rparr>"
    by (simp only: WriteVarInt32_bytes_last [OF g35] s4 [OF len(4)]
        byte_small_eq [OF drop_bit_28_small])
  note unf = WriteVarInt32_def kMaxVarint32Bytes_def Let_def M4_def M3_def M2_def M1_def
    a0_def a1_def a2_def a3_def t_def c_def m_def
  note eval = assms(2,3) simp_thms semiring_norm mult_1
  have f0: "WriteVarInt32 w v = w\<lparr> w_pData := M1[t := M1 ! t AND 0x7F], w_iCurBit := c + 1 * 8 \<rparr>"
    if "\<not> v \<ge> 2 ^ 7"
    unfolding unf by (simp only: eval that)
  have f1: "WriteVarInt32 w v
      = w\<lparr> w_pData := M2[t + 1 := M2 ! (t + 1) AND 0x7F], w_iCurBit := c + 2 * 8 \<rparr>"
    if "v \<ge> 2 ^ 7" "\<not> v \<ge> 2 ^ 14"
    unfolding unf by (simp only: eval that)
  have f2: "WriteVarInt32 w v
      = w\<lparr> w_pData := M3[t + 2 := M3 ! (t + 2) AND 0x7F], w_iCurBit := c + 3 * 8 \<rparr>"
    if "v \<ge> 2 ^ 7" "v \<ge> 2 ^ 14" "\<not> v \<ge> 2 ^ 21"
    unfolding unf by (simp only: eval that)
  have f3: "WriteVarInt32 w v
      = w\<lparr> w_pData := M4[t + 3 := M4 ! (t + 3) AND 0x7F], w_iCurBit := c + 4 * 8 \<rparr>"
    if "v \<ge> 2 ^ 7" "v \<ge> 2 ^ 14" "v \<ge> 2 ^ 21" "\<not> v \<ge> 2 ^ 28"
    unfolding unf by (simp only: eval that)
  have f4: "WriteVarInt32 w v
      = w\<lparr> w_pData := M4[t + 4 := ucast (drop_bit 28 v)], w_iCurBit := c + 5 * 8 \<rparr>"
    if "v \<ge> 2 ^ 7" "v \<ge> 2 ^ 14" "v \<ge> 2 ^ 21" "v \<ge> 2 ^ 28"
    unfolding unf by (simp only: eval that)
  have mono: "v \<ge> 2 ^ 14 \<Longrightarrow> v \<ge> 2 ^ 7" "v \<ge> 2 ^ 21 \<Longrightarrow> v \<ge> 2 ^ 14"
    "v \<ge> 2 ^ 28 \<Longrightarrow> v \<ge> 2 ^ 21"
    by (simp_all add: word_le_nat_alt)
  have n0: "M1[t := M1 ! t AND 0x7F] = m[t := ucast (v AND 0x7F)]"
    using tlen by (simp add: M1_def a0_def byte_last_eq)
  have n1: "M2[t + 1 := M2 ! (t + 1) AND 0x7F] = M1[t + 1 := ucast (drop_bit 7 v AND 0x7F)]"
    using tlen len by (simp add: M2_def a1_def byte_last_eq)
  have n2: "M3[t + 2 := M3 ! (t + 2) AND 0x7F] = M2[t + 2 := ucast (drop_bit 14 v AND 0x7F)]"
    using tlen len by (simp add: M3_def a2_def byte_last_eq)
  have n3: "M4[t + 3 := M4 ! (t + 3) AND 0x7F] = M3[t + 3 := ucast (drop_bit 21 v AND 0x7F)]"
    using tlen len by (simp add: M4_def a3_def byte_last_eq)
  show ?thesis
  proof (cases "v \<ge> 2 ^ 7")
    case False
    show ?thesis unfolding f0 [OF False] l0 [OF False] n0 by simp
  next
    case b7: True
    show ?thesis
    proof (cases "v \<ge> 2 ^ 14")
      case False
      show ?thesis unfolding f1 [OF b7 False] r1 [OF b7] l1 [OF False] n1 by simp
    next
      case b14: True
      show ?thesis
      proof (cases "v \<ge> 2 ^ 21")
        case False
        show ?thesis
          unfolding f2 [OF b7 b14 False] r1 [OF b7] r2 [OF b14] l2 [OF False] n2 by simp
      next
        case b21: True
        show ?thesis
        proof (cases "v \<ge> 2 ^ 28")
          case False
          show ?thesis
            unfolding f3 [OF b7 b14 b21 False] r1 [OF b7] r2 [OF b14] r3 [OF b21] l3 [OF False] n3
            by simp
        next
          case b28: True
          show ?thesis
            unfolding f4 [OF b7 b14 b21 b28] r1 [OF b7] r2 [OF b14] r3 [OF b21] r4 [OF b28] l4
            by simp
        qed
      qed
    qed
  qed
qed

lemma WriteVarInt32_eq_bytes:
  assumes "\<not> w_bOverflow w" and "w_nDataBits w \<le> 8 * length (w_pData w)"
  shows "WriteVarInt32 w v = WriteVarInt32_bytes w v"
proof (cases "w_iCurBit w mod 8 = 0 \<and> w_iCurBit w + kMaxVarint32Bytes * 8 \<le> w_nDataBits w")
  case True
  then have "w_iCurBit w mod 8 = 0" "w_iCurBit w + 40 \<le> w_nDataBits w"
    by (simp_all add: kMaxVarint32Bytes_def)
  then show ?thesis using assms(2) by (intro WriteVarInt32_paths_agree [OF assms(1)])
next
  case False
  then show ?thesis unfolding WriteVarInt32_def by (simp only: if_False)
qed

lemma VarInt32_roundtrip:
  assumes "\<not> w_bOverflow w"
    and "w_iCurBit w + 8 * ByteSizeVarInt32 v \<le> w_nDataBits w"
    and "w_nDataBits w \<le> 8 * length (w_pData w)"
    and "w' = WriteVarInt32 w v"
    and "r = StartReading (w_pData w') (w_nDataBytes w') (w_iCurBit w) (int (w_nDataBits w'))"
  shows "ReadVarInt32 r = (v, r\<lparr> r_iCurBit := w_iCurBit w' \<rparr>)"
    and "w_iCurBit w' = w_iCurBit w + 8 * ByteSizeVarInt32 v" and "\<not> w_bOverflow w'"
proof -
  have w': "w' = WriteVarInt32_bytes w v"
    unfolding assms(4) using assms(1,3) by (rule WriteVarInt32_eq_bytes)
  note wr = WriteVarInt32_bytes_get_bit [OF assms(1,2,3), folded w']
  have r: "\<not> r_bOverflow r" "r_iCurBit r = w_iCurBit w" "r_nDataBits r = w_nDataBits w"
    "r_pData r = w_pData w'"
    using wr by (simp_all add: assms(5) StartReading_def)
  have room: "r_iCurBit r + 8 * ByteSizeVarInt32 v \<le> r_nDataBits r"
    using assms(2) by (simp only: r)
  have bits: "get_bit (r_pData r) j
      = bit (varint_byte v ((j - r_iCurBit r) div 8)) ((j - r_iCurBit r) mod 8)"
    if "r_iCurBit r \<le> j" "j < r_iCurBit r + 8 * ByteSizeVarInt32 v" for j
    using wr that by (simp add: r)
  show "w_iCurBit w' = w_iCurBit w + 8 * ByteSizeVarInt32 v" using wr by simp
  then show "ReadVarInt32 r = (v, r\<lparr> r_iCurBit := w_iCurBit w' \<rparr>)"
    using ReadVarInt32_encoded [OF r(1) room bits] by (simp add: r)
  show "\<not> w_bOverflow w'" using wr by simp
qed

lemma SignedVarInt32_roundtrip:
  assumes "\<not> w_bOverflow w"
    and "w_iCurBit w + 8 * ByteSizeVarInt32 (ZigZagEncode32 v) \<le> w_nDataBits w"
    and "w_nDataBits w \<le> 8 * length (w_pData w)"
    and "w' = WriteSignedVarInt32 w v"
    and "r = StartReading (w_pData w') (w_nDataBytes w') (w_iCurBit w) (int (w_nDataBits w'))"
  shows "ReadSignedVarInt32 r = (v, r\<lparr> r_iCurBit := w_iCurBit w' \<rparr>)"
  using VarInt32_roundtrip(1) [OF assms(1,2,3) assms(4) [unfolded WriteSignedVarInt32_def] assms(5)]
  by (simp add: ReadSignedVarInt32_def ZigZag32_roundtrip)

section \<open>The Overflowed state\<close>

text \<open>No operation of bitbuf.cpp tests \<open>m_bOverflow\<close> before it acts: the flag is read
  only for the value returned by \<open>WriteBits\<close>, \<open>ReadString\<close> and their like.  What the
  Overflowed state means for an operation is therefore decided by the fixed-width
  primitives it calls, which are declared in bitbuf.h.  The lemmas and the theorem of this
  section do not unfold those primitives: they take what the primitives do as a
  hypothesis and follow the code of bitbuf.cpp from there.  Only the examples at the end
  unfold them, to show that the hypotheses hold in overflowed states of the model.\<close>

subsection \<open>Operations built from the primitives\<close>









subsection \<open>Reader operations built from the primitives\<close>








subsection \<open>Paths that do not go through the primitives\<close>








subsection \<open>The flag is not cleared\<close>


















end
